theory Spec2Isabelle
  imports Main "HOL-Library.Multiset"
begin

section \<open>The decoder of \<open>src/utils.py\<close> as HOL functions\<close>

text \<open>
  Times, job indices and factory indices are Python integers, hence \<open>int\<close>. A slot is
  the tuple \<open>(job, start, end)\<close>; a machine schedule is a list of slots, a factory
  schedule a list of machine schedules. Exceptions are values of \<open>error\<close>: a function
  that can raise returns \<open>error + 'a\<close> with \<open>Inl\<close> for the exception.
\<close>

datatype error = IndexError | ValueError | TypeError

type_synonym slot = "int \<times> int \<times> int"
type_synonym schedule = "slot list"

definition slot_job :: "slot \<Rightarrow> int" where
  "slot_job s = fst s"

definition slot_start :: "slot \<Rightarrow> int" where
  "slot_start s = fst (snd s)"

definition slot_end :: "slot \<Rightarrow> int" where
  "slot_end s = snd (snd s)"

text \<open>
  The sentinel of \<open>src/example.py\<close>, \<open>INF = int(1e+14)\<close> (the name \<open>INF\<close> is taken in
  HOL by the infimum).
\<close>

definition INF_sentinel :: int where
  "INF_sentinel = 100000000000000"

subsection \<open>Python list indexing and \<open>max\<close>\<close>

text \<open>
  \<open>xs[i]\<close> on a list of length \<open>n\<close>: an index in \<open>[0, n)\<close> is used as it is, an index in
  \<open>[-n, 0)\<close> counts from the end, anything else raises IndexError.
\<close>

definition py_index :: "nat \<Rightarrow> int \<Rightarrow> error + nat" where
  "py_index n i =
     (if 0 \<le> i \<and> i < int n then Inr (nat i)
      else if i < 0 \<and> - int n \<le> i then Inr (nat (int n + i))
      else Inl IndexError)"

definition py_get :: "'a list \<Rightarrow> int \<Rightarrow> error + 'a" where
  "py_get xs i = (case py_index (length xs) i of Inl e \<Rightarrow> Inl e | Inr k \<Rightarrow> Inr (xs ! k))"

text \<open>\<open>max(xs)\<close> raises ValueError on an empty list.\<close>

definition py_max :: "int list \<Rightarrow> error + int" where
  "py_max xs = (case xs of [] \<Rightarrow> Inl ValueError | x # ys \<Rightarrow> Inr (fold max ys x))"

subsection \<open>\<open>makespan\<close>\<close>

text \<open>The entry appended to \<open>finish_times\<close> for one schedule.\<close>

definition finish_time_of :: "schedule \<Rightarrow> int" where
  "finish_time_of schedule = (if length schedule = 0 then 0 else slot_end (last schedule))"

definition makespan :: "schedule list \<Rightarrow> error + int" where
  "makespan schedules = py_max (map finish_time_of schedules)"

subsection \<open>\<open>insert_operation_to_schedule\<close>\<close>

text \<open>
  The \<open>for\<close> loop over \<open>enumerate(zip(schedule_, schedule))\<close>. Of \<open>slot1\<close> only the last
  component is read, so the first list of the zip carries the end times: \<open>0\<close> for the
  dummy \<open>(None,0,0)\<close>, then the end of each slot. \<open>None\<close> means that the loop ran to its
  end without returning.
\<close>

fun scan_idle :: "int \<Rightarrow> int \<Rightarrow> int \<Rightarrow> schedule \<Rightarrow> (nat \<times> int \<times> slot) list \<Rightarrow> schedule option" where
  "scan_idle time_of_operation job_of_operation finish_time_of_previous_operation schedule [] = None"
| "scan_idle time_of_operation job_of_operation finish_time_of_previous_operation schedule
     ((index, start_of_idle, slot2) # rest) =
     (let end_of_idle = slot_start slot2 in
      if end_of_idle > finish_time_of_previous_operation then
        (let start = max finish_time_of_previous_operation start_of_idle in
         if end_of_idle - start \<ge> time_of_operation then
           Some (take index schedule
                 @ [(job_of_operation, start, start + time_of_operation)]
                 @ drop index schedule)
         else scan_idle time_of_operation job_of_operation
                finish_time_of_previous_operation schedule rest)
      else scan_idle time_of_operation job_of_operation
             finish_time_of_previous_operation schedule rest)"

definition insert_operation_to_schedule :: "int \<Rightarrow> int \<Rightarrow> int \<Rightarrow> schedule \<Rightarrow> schedule" where
  "insert_operation_to_schedule time_of_operation job_of_operation
       finish_time_of_previous_operation schedule =
     (if length schedule = 0 then
        [(job_of_operation, finish_time_of_previous_operation,
          finish_time_of_previous_operation + time_of_operation)]
      else
        (case scan_idle time_of_operation job_of_operation finish_time_of_previous_operation
                schedule (enumerate 0 (zip (0 # map slot_end schedule) schedule)) of
           Some result \<Rightarrow> result
         | None \<Rightarrow>
             (let start_of_idle = slot_end (last schedule);
                  start = max finish_time_of_previous_operation start_of_idle
              in schedule @ [(job_of_operation, start, start + time_of_operation)])))"

subsection \<open>\<open>finish_time_of_last_operation\<close>\<close>

definition finish_time_of_last_operation :: "int \<Rightarrow> schedule list \<Rightarrow> int" where
  "finish_time_of_last_operation job schedules =
     fold (\<lambda>schedule_in_machine.
             fold (\<lambda>s max_end.
                     if slot_job s = job then (if slot_end s > max_end then slot_end s else max_end)
                     else max_end)
                  schedule_in_machine)
          schedules 0"

subsection \<open>\<open>schedule_in_single_factory\<close>\<close>

text \<open>
  The inner loop over \<open>enumerate(operation)\<close>. The three variables \<open>best_makespan\<close>,
  \<open>best_machine\<close>, \<open>best_schedule\<close> are \<open>None\<close> together or set together, so they are one
  optional triple. \<open>machine_schedules[machine]\<close> raises IndexError when the operation
  has more entries than there are machines.
\<close>

type_synonym best = "(int \<times> nat \<times> schedule) option"

fun select_machine :: "int \<Rightarrow> int \<Rightarrow> schedule list \<Rightarrow> (nat \<times> int) list \<Rightarrow> best \<Rightarrow> error + best" where
  "select_machine gene finish_time machine_schedules [] best = Inr best"
| "select_machine gene finish_time machine_schedules ((machine, time_of_operation) # rest) best =
     (if machine < length machine_schedules then
        (let schedule = insert_operation_to_schedule time_of_operation gene finish_time
                          (machine_schedules ! machine)
         in case makespan (schedule # machine_schedules) of
              Inl e \<Rightarrow> Inl e
            | Inr tmp_makespan \<Rightarrow>
                (if (case best of None \<Rightarrow> True
                     | Some (best_makespan, _, _) \<Rightarrow> best_makespan > tmp_makespan)
                 then select_machine gene finish_time machine_schedules rest
                        (Some (tmp_makespan, machine, schedule))
                 else select_machine gene finish_time machine_schedules rest best))
      else Inl IndexError)"

text \<open>
  The trial of one machine, as the loop body computes it: the schedule after the
  insertion, and the makespan of that schedule together with all current schedules.
\<close>

definition trial_schedule :: "int \<Rightarrow> int \<Rightarrow> schedule list \<Rightarrow> nat \<Rightarrow> int \<Rightarrow> schedule" where
  "trial_schedule gene finish_time machine_schedules machine time_of_operation =
     insert_operation_to_schedule time_of_operation gene finish_time (machine_schedules ! machine)"

definition trial_makespan :: "int \<Rightarrow> int \<Rightarrow> schedule list \<Rightarrow> nat \<Rightarrow> int \<Rightarrow> error + int" where
  "trial_makespan gene finish_time machine_schedules machine time_of_operation =
     makespan (trial_schedule gene finish_time machine_schedules machine time_of_operation
               # machine_schedules)"

text \<open>
  The state of the outer loop is \<open>(operation_counter, machine_schedules)\<close>;
  \<open>decode_gene\<close> is one iteration: \<open>jobs[gene][operation_counter[gene]]\<close>, the
  selection, the commit \<open>machine_schedules[best_machine] = best_schedule\<close> and
  \<open>operation_counter[gene] += 1\<close>. With no machine selected (an empty operation), the
  commit is \<open>machine_schedules[None] = None\<close>, which raises TypeError.
\<close>

type_synonym factory_state = "int list \<times> schedule list"

definition resolve_operation :: "int list list list \<Rightarrow> int \<Rightarrow> int list \<Rightarrow> error + int list" where
  "resolve_operation jobs gene operation_counter =
     (case py_get jobs gene of Inl e \<Rightarrow> Inl e | Inr job \<Rightarrow>
        (case py_get operation_counter gene of Inl e \<Rightarrow> Inl e | Inr counter \<Rightarrow>
           py_get job counter))"

definition increment_counter :: "int list \<Rightarrow> int \<Rightarrow> error + int list" where
  "increment_counter operation_counter gene =
     (case py_index (length operation_counter) gene of
        Inl e \<Rightarrow> Inl e
      | Inr c \<Rightarrow> Inr (operation_counter[c := operation_counter ! c + 1]))"

definition decode_gene :: "int list list list \<Rightarrow> int \<Rightarrow> factory_state \<Rightarrow> error + factory_state" where
  "decode_gene jobs gene st =
     (case st of (operation_counter, machine_schedules) \<Rightarrow>
        (case resolve_operation jobs gene operation_counter of Inl e \<Rightarrow> Inl e | Inr operation \<Rightarrow>
        (let finish_time = finish_time_of_last_operation gene machine_schedules in
         case select_machine gene finish_time machine_schedules (enumerate 0 operation) None of
           Inl e \<Rightarrow> Inl e
         | Inr None \<Rightarrow> Inl TypeError
         | Inr (Some (best_makespan, best_machine, best_schedule)) \<Rightarrow>
             (case increment_counter operation_counter gene of Inl e \<Rightarrow> Inl e
              | Inr operation_counter' \<Rightarrow>
                  Inr (operation_counter', machine_schedules[best_machine := best_schedule])))))"

fun decode_genes :: "int list list list \<Rightarrow> int list \<Rightarrow> factory_state \<Rightarrow> error + factory_state" where
  "decode_genes jobs [] st = Inr st"
| "decode_genes jobs (gene # genome) st =
     (case decode_gene jobs gene st of
        Inl e \<Rightarrow> Inl e
      | Inr st' \<Rightarrow> decode_genes jobs genome st')"

definition initial_state :: "int list list list \<Rightarrow> int \<Rightarrow> factory_state" where
  "initial_state jobs n_machines = (replicate (length jobs) 0, replicate (nat n_machines) [])"

definition schedule_in_single_factory :: "int list \<Rightarrow> int list list list \<Rightarrow> int \<Rightarrow> error + schedule list" where
  "schedule_in_single_factory genome jobs n_machines =
     (case decode_genes jobs genome (initial_state jobs n_machines) of
        Inl e \<Rightarrow> Inl e
      | Inr st \<Rightarrow> Inr (snd st))"

subsection \<open>\<open>schedule_in_multiple_factory\<close>\<close>

text \<open>The loop \<open>for op, fac in zip(...): subgenomes[fac].append(op)\<close>.\<close>

fun split_genome :: "(int \<times> int) list \<Rightarrow> int list list \<Rightarrow> error + int list list" where
  "split_genome [] subgenomes = Inr subgenomes"
| "split_genome ((op, fac) # rest) subgenomes =
     (case py_index (length subgenomes) fac of
        Inl e \<Rightarrow> Inl e
      | Inr i \<Rightarrow> split_genome rest (subgenomes[i := subgenomes ! i @ [op]]))"

text \<open>The loop \<open>for subgenome in subgenomes: schedules.append(...)\<close>.\<close>

fun decode_factories :: "int list list \<Rightarrow> int list list list \<Rightarrow> int \<Rightarrow> error + schedule list list" where
  "decode_factories [] jobs n_machines = Inr []"
| "decode_factories (subgenome # rest) jobs n_machines =
     (case schedule_in_single_factory subgenome jobs n_machines of
        Inl e \<Rightarrow> Inl e
      | Inr schedule_in_factory \<Rightarrow>
          (case decode_factories rest jobs n_machines of
             Inl e \<Rightarrow> Inl e
           | Inr schedules \<Rightarrow> Inr (schedule_in_factory # schedules)))"

definition schedule_in_multiple_factory ::
  "int list \<Rightarrow> int list \<Rightarrow> int list list list \<Rightarrow> int \<Rightarrow> int \<Rightarrow> error + (int \<times> schedule list list)" where
  "schedule_in_multiple_factory operation_genome factory_genome jobs n_machines n_factories =
     (case split_genome (zip operation_genome factory_genome) (replicate (nat n_factories) []) of
        Inl e \<Rightarrow> Inl e
      | Inr subgenomes \<Rightarrow>
          (case decode_factories subgenomes jobs n_machines of
             Inl e \<Rightarrow> Inl e
           | Inr schedules \<Rightarrow>
               (case makespan (concat schedules) of
                  Inl e \<Rightarrow> Inl e
                | Inr m \<Rightarrow> Inr (m, schedules))))"

section \<open>Properties of schedules\<close>

text \<open>
  A slot is well formed when it starts before it ends. A machine schedule is valid when
  its slots are well formed, sorted by start time, and pairwise disjoint: for slots
  \<open>i \<noteq> j\<close>, \<open>end[i] \<le> start[j]\<close> or \<open>end[j] \<le> start[i]\<close>.
\<close>

definition slots_wf :: "schedule \<Rightarrow> bool" where
  "slots_wf sch = (\<forall>s \<in> set sch. slot_start s < slot_end s)"

definition start_sorted :: "schedule \<Rightarrow> bool" where
  "start_sorted sch = sorted (map slot_start sch)"

definition non_overlapping :: "schedule \<Rightarrow> bool" where
  "non_overlapping sch =
     (\<forall>i \<in> {..<length sch}. \<forall>j \<in> {..<length sch}. i \<noteq> j \<longrightarrow>
        slot_end (sch ! i) \<le> slot_start (sch ! j) \<or> slot_end (sch ! j) \<le> slot_start (sch ! i))"

definition valid_schedule :: "schedule \<Rightarrow> bool" where
  "valid_schedule sch = (slots_wf sch \<and> start_sorted sch \<and> non_overlapping sch)"

text \<open>
  The same as a chain: every slot ends no later than each slot behind it starts. The
  proofs work with this form (\<open>valid_schedule_iff_chain\<close> below).
\<close>

definition slot_chain :: "schedule \<Rightarrow> bool" where
  "slot_chain sch = sorted_wrt (\<lambda>a b. slot_end a \<le> slot_start b) sch"

text \<open>Every processing time of every operation of every job is positive.\<close>

definition jobs_positive :: "int list list list \<Rightarrow> bool" where
  "jobs_positive jobs = (\<forall>job \<in> set jobs. \<forall>operation \<in> set job. \<forall>t \<in> set operation. 0 < t)"

text \<open>The committed slots of a factory, as a multiset.\<close>

definition committed :: "schedule list \<Rightarrow> slot multiset" where
  "committed machine_schedules = mset (concat machine_schedules)"

text \<open>The committed slots of a factory that carry the tag \<open>job\<close>.\<close>

definition job_slots :: "int \<Rightarrow> schedule list \<Rightarrow> slot multiset" where
  "job_slots job machine_schedules =
     filter_mset (\<lambda>s. slot_job s = job) (committed machine_schedules)"

text \<open>
  The operation counter of every job is the number of slots that the factory holds for
  that job: the invariant of the outer loop when every gene is an index in
  \<open>[0, len(jobs))\<close>.
\<close>

definition counters_match :: "int list list list \<Rightarrow> factory_state \<Rightarrow> bool" where
  "counters_match jobs st =
     (length (fst st) = length jobs \<and>
      (\<forall>j \<in> {..<length jobs}. fst st ! j = int (size (job_slots (int j) (snd st)))))"

section \<open>The makespan\<close>

lemma py_max_Cons: "py_max (x # xs) = Inr (Max (set (x # xs)))"
  by (simp only: py_max_def list.case Max.set_eq_fold)

lemma makespan_Nil: "makespan [] = Inl ValueError"
  by (simp add: makespan_def py_max_def)

lemma makespan_Max: "schedules \<noteq> [] \<Longrightarrow> makespan schedules = Inr (Max (finish_time_of ` set schedules))"
proof -
  assume "schedules \<noteq> []"
  then obtain s ss where e: "schedules = s # ss" by (cases schedules) auto
  have "makespan (s # ss) = Inr (Max (set (finish_time_of s # map finish_time_of ss)))"
    unfolding makespan_def list.map by (rule py_max_Cons)
  then show ?thesis by (simp add: e)
qed

lemma makespan_Cons: "makespan (s # ss) = Inr (Max (insert (finish_time_of s) (finish_time_of ` set ss)))"
  using makespan_Max [of "s # ss"] by simp

text \<open>
  C8 (amended). On an empty collection \<open>makespan\<close> raises ValueError, as Python's \<open>max\<close>
  of an empty list does. On a non-empty collection it returns the maximum, over the
  schedules, of the end time of the last slot, with 0 for an empty schedule; so it
  returns 0 when the collection is not empty and all its schedules are.
\<close>

theorem makespan_is_max:
  "makespan [] = Inl ValueError \<and>
   (schedules \<noteq> [] \<longrightarrow> makespan schedules = Inr (Max (finish_time_of ` set schedules))) \<and>
   (schedules \<noteq> [] \<and> (\<forall>s \<in> set schedules. s = []) \<longrightarrow> makespan schedules = Inr 0) \<and>
   finish_time_of [] = 0 \<and>
   (schedule \<noteq> [] \<longrightarrow> finish_time_of schedule = slot_end (last schedule))"
proof (intro conjI impI)
  show "makespan [] = Inl ValueError" by (rule makespan_Nil)
next
  assume "schedules \<noteq> []"
  then show "makespan schedules = Inr (Max (finish_time_of ` set schedules))" by (rule makespan_Max)
next
  assume a: "schedules \<noteq> [] \<and> (\<forall>s \<in> set schedules. s = [])"
  then have "finish_time_of ` set schedules = {0}"
    by (cases schedules) (auto simp: finish_time_of_def)
  with a show "makespan schedules = Inr 0" by (simp add: makespan_Max)
next
  show "finish_time_of [] = 0" by (simp add: finish_time_of_def)
next
  assume "schedule \<noteq> []"
  then show "finish_time_of schedule = slot_end (last schedule)" by (simp add: finish_time_of_def)
qed

theorem makespan_is_max_witness:
  "makespan [] = Inl ValueError \<and>
   makespan [[(0, 0, 7), (0, 7, 9)], [], [(1, 2, 5)]] = Inr 9 \<and>
   makespan [[], []] = Inr 0"
  using makespan_is_max [of "[[(0, 0, 7), (0, 7, 9)], [], [(1, 2, 5)]]" "[(0, 0, 7), (0, 7, 9)]"]
        makespan_is_max [of "[[], []]" "[]"]
  by (simp add: finish_time_of_def slot_end_def)

text \<open>C8 as stated fails: the makespan of the empty collection is not 0.\<close>

theorem makespan_empty_collection_counterexample:
  "makespan [] \<noteq> Inr 0"
  by (simp add: makespan_def py_max_def)

section \<open>The insertion planner\<close>

lemma scan_idle_Some:
  "scan_idle t j f sch (enumerate k ps) = Some r \<Longrightarrow>
   \<exists>i. k \<le> i \<and> i < k + length ps \<and> f < slot_start (snd (ps ! (i - k))) \<and>
       max f (fst (ps ! (i - k))) + t \<le> slot_start (snd (ps ! (i - k))) \<and>
       r = take i sch @ [(j, max f (fst (ps ! (i - k))), max f (fst (ps ! (i - k))) + t)] @ drop i sch"
proof (induction ps arbitrary: k)
  case Nil
  then show ?case by simp
next
  case (Cons p ps)
  obtain a b where p: "p = (a, b)" by (cases p)
  show ?case
  proof (cases "f < slot_start b \<and> t \<le> slot_start b - max f a")
    case True
    with Cons.prems p have "r = take k sch @ [(j, max f a, max f a + t)] @ drop k sch"
      by (auto simp: Let_def)
    with True p show ?thesis by (intro exI [of _ k]) auto
  next
    case False
    with Cons.prems p have "scan_idle t j f sch (enumerate (Suc k) ps) = Some r"
      by (auto simp: Let_def split: if_splits)
    from Cons.IH [OF this] obtain i where i: "Suc k \<le> i" "i < Suc k + length ps"
      "f < slot_start (snd (ps ! (i - Suc k)))"
      "max f (fst (ps ! (i - Suc k))) + t \<le> slot_start (snd (ps ! (i - Suc k)))"
      "r = take i sch @ [(j, max f (fst (ps ! (i - Suc k))), max f (fst (ps ! (i - Suc k))) + t)] @ drop i sch"
      by blast
    from i(1) have nth: "(p # ps) ! (i - k) = ps ! (i - Suc k)"
    proof -
      from i(1) have "i - k = Suc (i - Suc k)" by arith
      then show ?thesis by simp
    qed
    show ?thesis
      using i by (intro exI [of _ i]) (simp add: nth)
  qed
qed

text \<open>
  The three ways \<open>insert_operation_to_schedule\<close> returns: on an empty schedule, into
  the idle region in front of slot \<open>i\<close> (which starts at 0 or at the end of slot
  \<open>i - 1\<close>), or after the last slot.
\<close>

lemma insert_operation_cases:
  obtains
    (empty) "sch = []" "insert_operation_to_schedule t j f sch = [(j, f, f + t)]"
  | (gap) i where "i < length sch" "f < slot_start (sch ! i)"
      "max f ((0 # map slot_end sch) ! i) + t \<le> slot_start (sch ! i)"
      "insert_operation_to_schedule t j f sch =
         take i sch @ [(j, max f ((0 # map slot_end sch) ! i), max f ((0 # map slot_end sch) ! i) + t)] @ drop i sch"
  | (append) "sch \<noteq> []"
      "insert_operation_to_schedule t j f sch =
         sch @ [(j, max f (slot_end (last sch)), max f (slot_end (last sch)) + t)]"
proof (cases "sch = []")
  case True
  then show ?thesis using empty by (simp add: insert_operation_to_schedule_def)
next
  case ne: False
  let ?ps = "zip (0 # map slot_end sch) sch"
  show ?thesis
  proof (cases "scan_idle t j f sch (enumerate 0 ?ps)")
    case None
    with ne show ?thesis using append by (simp add: insert_operation_to_schedule_def Let_def)
  next
    case (Some r)
    from scan_idle_Some [OF Some] obtain i where i: "i < length ?ps"
      "f < slot_start (snd (?ps ! i))" "max f (fst (?ps ! i)) + t \<le> slot_start (snd (?ps ! i))"
      "r = take i sch @ [(j, max f (fst (?ps ! i)), max f (fst (?ps ! i)) + t)] @ drop i sch"
      by auto
    from i(1) have len: "i < length sch" by simp
    then have nth: "?ps ! i = ((0 # map slot_end sch) ! i, sch ! i)" by simp
    have "insert_operation_to_schedule t j f sch = r"
      using ne Some by (simp add: insert_operation_to_schedule_def)
    with i len show ?thesis using gap [of i] unfolding nth by simp
  qed
qed

lemma slot_chain_nth:
  "slot_chain sch \<Longrightarrow> m < n \<Longrightarrow> n < length sch \<Longrightarrow> slot_end (sch ! m) \<le> slot_start (sch ! n)"
  by (simp add: slot_chain_def sorted_wrt_iff_nth_less)

lemma slots_wf_nth: "slots_wf sch \<Longrightarrow> n < length sch \<Longrightarrow> slot_start (sch ! n) < slot_end (sch ! n)"
  by (simp add: slots_wf_def)

lemma valid_schedule_iff_chain: "valid_schedule sch \<longleftrightarrow> slots_wf sch \<and> slot_chain sch"
proof
  assume v: "valid_schedule sch"
  then have wf: "slots_wf sch" and so: "sorted (map slot_start sch)"
    and no: "\<And>i j. i < length sch \<Longrightarrow> j < length sch \<Longrightarrow> i \<noteq> j \<Longrightarrow>
        slot_end (sch ! i) \<le> slot_start (sch ! j) \<or> slot_end (sch ! j) \<le> slot_start (sch ! i)"
    by (auto simp: valid_schedule_def start_sorted_def non_overlapping_def)
  have "slot_end (sch ! i) \<le> slot_start (sch ! j)" if "i < j" "j < length sch" for i j
  proof -
    from so that have "slot_start (sch ! i) \<le> slot_start (sch ! j)"
      by (simp add: sorted_iff_nth_mono)
    moreover from wf that have "slot_start (sch ! j) < slot_end (sch ! j)"
      by (simp add: slots_wf_nth)
    moreover from no [of i j] that
    have "slot_end (sch ! i) \<le> slot_start (sch ! j) \<or> slot_end (sch ! j) \<le> slot_start (sch ! i)"
      by simp
    ultimately show ?thesis by linarith
  qed
  then have "slot_chain sch" by (simp add: slot_chain_def sorted_wrt_iff_nth_less)
  with wf show "slots_wf sch \<and> slot_chain sch" by simp
next
  assume a: "slots_wf sch \<and> slot_chain sch"
  have "slot_start (sch ! i) \<le> slot_start (sch ! j)" if "i < j" "j < length sch" for i j
    using slot_chain_nth [of sch i j] slots_wf_nth [of sch i] a that by simp
  then have "sorted (map slot_start sch)"
    by (simp add: sorted_iff_nth_Suc)
  moreover have "non_overlapping sch"
    unfolding non_overlapping_def
  proof (intro ballI impI)
    fix i j assume "i \<in> {..<length sch}" "j \<in> {..<length sch}" "i \<noteq> j"
    then consider "i < j" "j < length sch" | "j < i" "i < length sch" by fastforce
    then show "slot_end (sch ! i) \<le> slot_start (sch ! j) \<or> slot_end (sch ! j) \<le> slot_start (sch ! i)"
      using a by cases (auto dest: slot_chain_nth)
  qed
  ultimately show "valid_schedule sch" using a by (simp add: valid_schedule_def start_sorted_def)
qed

lemma length_insert_operation:
  "length (insert_operation_to_schedule t j f sch) = Suc (length sch)"
  by (cases rule: insert_operation_cases [where sch = sch and t = t and j = j and f = f]) simp_all

lemma mset_insert_operation:
  "\<exists>s. f \<le> s \<and> mset (insert_operation_to_schedule t j f sch) = add_mset (j, s, s + t) (mset sch)"
proof (cases rule: insert_operation_cases [where sch = sch and t = t and j = j and f = f])
  case empty
  then show ?thesis by (intro exI [of _ f]) simp
next
  case (gap i)
  have "mset (take i sch) + mset (drop i sch) = mset sch"
    by (simp flip: mset_append)
  then show ?thesis
    by (intro exI [of _ "max f ((0 # map slot_end sch) ! i)"]) (simp add: gap(4))
next
  case append
  then show ?thesis by (intro exI [of _ "max f (slot_end (last sch))"]) simp
qed

lemma finish_time_of_insert_cases:
  assumes "0 \<le> f"
  shows "finish_time_of (insert_operation_to_schedule t j f sch) = finish_time_of sch \<or>
         finish_time_of (insert_operation_to_schedule t j f sch) = max f (finish_time_of sch) + t"
proof (cases rule: insert_operation_cases [where sch = sch and t = t and j = j and f = f])
  case empty
  with assms show ?thesis by (simp add: finish_time_of_def slot_end_def)
next
  case (gap i)
  then have "sch \<noteq> []" "drop i sch \<noteq> []" by auto
  with gap show ?thesis by (simp add: finish_time_of_def)
next
  case append
  then show ?thesis by (simp add: finish_time_of_def slot_end_def)
qed


lemma insert_operation_chain:
  assumes wf: "slots_wf sch" and ch: "slot_chain sch" and t: "0 \<le> t"
  shows "slot_chain (insert_operation_to_schedule t j f sch)"
proof (cases rule: insert_operation_cases [where sch = sch and t = t and j = j and f = f])
  case empty
  then show ?thesis by (simp add: slot_chain_def)
next
  case (gap i)
  let ?s = "max f ((0 # map slot_end sch) ! i)"
  have before: "slot_end x \<le> ?s" if "x \<in> set (take i sch)" for x
  proof -
    from that gap(1) obtain m where m: "m < i" "x = sch ! m"
      by (auto simp: in_set_conv_nth)
    then obtain i' where i': "i = Suc i'" by (cases i) auto
    have "slot_end (sch ! m) \<le> slot_end (sch ! i')"
    proof (cases "m = i'")
      case True then show ?thesis by simp
    next
      case False
      with m i' have "m < i'" by simp
      from slot_chain_nth [OF ch this] slots_wf_nth [OF wf, of i'] gap(1) i'
      show ?thesis by simp
    qed
    with i' gap(1) m show ?thesis by simp
  qed
  have after: "?s + t \<le> slot_start y" if "y \<in> set (drop i sch)" for y
  proof -
    from that obtain n where n: "i \<le> n" "n < length sch" "y = sch ! n"
      by (auto simp: in_set_conv_nth) (metis le_add1 less_diff_conv add.commute)
    show ?thesis
    proof (cases "n = i")
      case True with gap(3) n show ?thesis by simp
    next
      case False
      with n have "i < n" by simp
      from slot_chain_nth [OF ch this n(2)] slots_wf_nth [OF wf gap(1)] gap(3) n
      show ?thesis by simp
    qed
  qed
  from ch have "sorted_wrt (\<lambda>a b. slot_end a \<le> slot_start b) (take i sch @ drop i sch)"
    by (simp add: slot_chain_def)
  then have parts: "sorted_wrt (\<lambda>a b. slot_end a \<le> slot_start b) (take i sch)"
    "sorted_wrt (\<lambda>a b. slot_end a \<le> slot_start b) (drop i sch)"
    "\<forall>x \<in> set (take i sch). \<forall>y \<in> set (drop i sch). slot_end x \<le> slot_start y"
    unfolding sorted_wrt_append by blast+
  have new: "slot_start (j, ?s, ?s + t) = ?s" "slot_end (j, ?s, ?s + t) = ?s + t"
    by (simp_all add: slot_start_def slot_end_def)
  show ?thesis
    unfolding gap(4) slot_chain_def sorted_wrt_append
    using parts before after new by auto
next
  case append
  let ?s = "max f (slot_end (last sch))"
  have "slot_end x \<le> ?s" if "x \<in> set sch" for x
  proof -
    from that obtain m where m: "m < length sch" "x = sch ! m"
      by (auto simp: in_set_conv_nth)
    have "slot_end (sch ! m) \<le> slot_end (last sch)"
    proof (cases "m = length sch - 1")
      case True with append(1) show ?thesis by (simp add: last_conv_nth)
    next
      case False
      with m have lt: "m < length sch - 1" by simp
      from slot_chain_nth [OF ch lt] slots_wf_nth [OF wf, of "length sch - 1"] append(1)
      show ?thesis by (simp add: last_conv_nth)
    qed
    with m show ?thesis by simp
  qed
  with ch show ?thesis
    unfolding append(2) slot_chain_def sorted_wrt_append
    by (simp add: slot_start_def)
qed

lemma insert_operation_wf:
  assumes "slots_wf sch" "0 < t"
  shows "slots_wf (insert_operation_to_schedule t j f sch)"
proof -
  from mset_insert_operation [of f t j sch] obtain s where
    "mset (insert_operation_to_schedule t j f sch) = add_mset (j, s, s + t) (mset sch)" by blast
  then have "set (insert_operation_to_schedule t j f sch) = insert (j, s, s + t) (set sch)"
    by (metis set_mset_add_mset_insert set_mset_mset)
  with assms show ?thesis by (simp add: slots_wf_def slot_start_def slot_end_def)
qed

lemma insert_operation_valid:
  assumes "valid_schedule sch" "0 < t"
  shows "valid_schedule (insert_operation_to_schedule t j f sch)"
  using assms insert_operation_chain [of sch t j f] insert_operation_wf [of sch t j f]
  by (simp add: valid_schedule_iff_chain)

lemma fold_over_concat: "fold (\<lambda>xs. fold f xs) xss acc = fold f (concat xss) acc"
  by (induction xss arbitrary: acc) simp_all

lemma finish_time_of_last_operation_concat:
  "finish_time_of_last_operation job schedules =
     fold (\<lambda>s max_end. if slot_job s = job then (if slot_end s > max_end then slot_end s else max_end)
                        else max_end) (concat schedules) 0"
  unfolding finish_time_of_last_operation_def by (rule fold_over_concat)

lemma fold_max_end_ge:
  "acc \<le> fold (\<lambda>s max_end. if slot_job s = job then (if slot_end s > max_end then slot_end s else max_end)
                        else max_end) xs acc"
proof (induction xs arbitrary: acc)
  case Nil
  show ?case by simp
next
  case (Cons x xs)
  show ?case
    using Cons.IH [of acc] Cons.IH [of "slot_end x"] by auto
qed

lemma fold_max_end_bound:
  "s \<in> set xs \<Longrightarrow> slot_job s = job \<Longrightarrow>
   slot_end s \<le> fold (\<lambda>s max_end. if slot_job s = job then (if slot_end s > max_end then slot_end s else max_end)
                        else max_end) xs acc"
proof (induction xs arbitrary: acc)
  case Nil
  then show ?case by simp
next
  case (Cons x xs)
  show ?case
  proof (cases "s = x")
    case True
    with Cons.prems(2) fold_max_end_ge [of "slot_end x" job xs] fold_max_end_ge [of acc job xs]
    show ?thesis by auto
  next
    case False
    with Cons.prems have "s \<in> set xs" by simp
    from Cons.IH [OF this Cons.prems(2)] show ?thesis by simp
  qed
qed

lemma fold_max_end_cases:
  "fold (\<lambda>s max_end. if slot_job s = job then (if slot_end s > max_end then slot_end s else max_end)
                        else max_end) xs acc = acc \<or>
   (\<exists>s \<in> set xs. slot_job s = job \<and>
      fold (\<lambda>s max_end. if slot_job s = job then (if slot_end s > max_end then slot_end s else max_end)
                        else max_end) xs acc = slot_end s)"
proof (induction xs arbitrary: acc)
  case Nil
  show ?case by simp
next
  case (Cons x xs)
  show ?case
    using Cons.IH [of acc] Cons.IH [of "slot_end x"] by auto
qed

lemma finish_time_of_last_operation_nonneg: "0 \<le> finish_time_of_last_operation job schedules"
  unfolding finish_time_of_last_operation_concat by (rule fold_max_end_ge)

lemma finish_time_of_last_operation_bound:
  "s \<in> set (concat schedules) \<Longrightarrow> slot_job s = job \<Longrightarrow>
   slot_end s \<le> finish_time_of_last_operation job schedules"
  unfolding finish_time_of_last_operation_concat by (rule fold_max_end_bound)

lemma finish_time_of_last_operation_cases:
  "finish_time_of_last_operation job schedules = 0 \<or>
   (\<exists>s \<in> set (concat schedules). slot_job s = job \<and>
      finish_time_of_last_operation job schedules = slot_end s)"
  unfolding finish_time_of_last_operation_concat by (rule fold_max_end_cases)


section \<open>The selection of the machine\<close>

lemma trial_makespan_value:
  "trial_makespan g f ms m t =
     Inr (Max (insert (finish_time_of (trial_schedule g f ms m t)) (finish_time_of ` set ms)))"
  by (simp add: trial_makespan_def makespan_Cons)

lemma select_machine_Cons:
  "select_machine g f ms ((m, t) # rest) best =
     (if m < length ms then
        (case trial_makespan g f ms m t of
           Inl e \<Rightarrow> Inl e
         | Inr v \<Rightarrow>
             select_machine g f ms rest
               (if (case best of None \<Rightarrow> True | Some (b, _, _) \<Rightarrow> v < b)
                then Some (v, m, trial_schedule g f ms m t) else best))
      else Inl IndexError)"
  by (simp add: trial_makespan_def trial_schedule_def Let_def split: sum.splits)

lemma select_machine_total:
  "k + length ts \<le> length ms \<Longrightarrow>
   \<exists>res. select_machine g f ms (enumerate k ts) best = Inr res"
proof (induction ts arbitrary: k best)
  case Nil
  show ?case by simp
next
  case (Cons t ts)
  then have "Suc k + length ts \<le> length ms" "k < length ms" by simp_all
  with Cons.IH [of "Suc k"] show ?case
    by (simp add: select_machine_Cons trial_makespan_value del: select_machine.simps)
qed

lemma select_machine_in_range:
  "select_machine g f ms (enumerate k ts) best = Inr res \<Longrightarrow> ts \<noteq> [] \<Longrightarrow>
   k + length ts \<le> length ms"
proof (induction ts arbitrary: k best)
  case Nil
  then show ?case by simp
next
  case (Cons t ts)
  from Cons.prems(1) have k: "k < length ms"
    by (simp add: select_machine_Cons del: select_machine.simps split: if_splits)
  show ?case
  proof (cases "ts = []")
    case True
    with k show ?thesis by simp
  next
    case False
    from Cons.prems(1) k obtain best' where
      "select_machine g f ms (enumerate (Suc k) ts) best' = Inr res"
      by (simp add: select_machine_Cons trial_makespan_value del: select_machine.simps)
    from Cons.IH [OF this False] show ?thesis by simp
  qed
qed

lemma select_machine_error:
  "select_machine g f ms ps best = Inl e \<Longrightarrow> e = IndexError"
proof (induction ps arbitrary: best)
  case Nil
  then show ?case by simp
next
  case (Cons p ps)
  obtain m t where p: "p = (m, t)" by (cases p)
  from Cons.prems show ?case
    unfolding p select_machine_Cons trial_makespan_value
    by (auto split: if_splits dest: Cons.IH)
qed

lemma select_machine_first_minimum:
  assumes "select_machine g f ms (enumerate k ts) best = Inr res"
  shows "(best \<noteq> None \<or> ts \<noteq> [] \<longrightarrow> res \<noteq> None) \<and>
         (\<forall>bm m s. res = Some (bm, m, s) \<longrightarrow>
            (\<forall>m'. k \<le> m' \<and> m' < k + length ts \<longrightarrow>
               (\<exists>v. trial_makespan g f ms m' (ts ! (m' - k)) = Inr v \<and> bm \<le> v)) \<and>
            (res \<noteq> best \<longrightarrow>
               k \<le> m \<and> m < k + length ts \<and>
               s = trial_schedule g f ms m (ts ! (m - k)) \<and>
               trial_makespan g f ms m (ts ! (m - k)) = Inr bm \<and>
               (\<forall>m'. k \<le> m' \<and> m' < m \<longrightarrow>
                  (\<exists>v. trial_makespan g f ms m' (ts ! (m' - k)) = Inr v \<and> bm < v)) \<and>
               (\<forall>b0 m0 s0. best = Some (b0, m0, s0) \<longrightarrow> bm < b0)))"
  using assms
proof (induction ts arbitrary: k best)
  case Nil
  then show ?case by auto
next
  case (Cons t ts)
  obtain v0 where v0: "trial_makespan g f ms k t = Inr v0"
    by (simp add: trial_makespan_value)
  define best' where "best' = (if (case best of None \<Rightarrow> True | Some (b, _, _) \<Rightarrow> v0 < b)
                then Some (v0, k, trial_schedule g f ms k t) else best)"
  from Cons.prems have run: "select_machine g f ms (enumerate (Suc k) ts) best' = Inr res"
    by (simp add: select_machine_Cons v0 best'_def del: select_machine.simps split: if_splits)
  note IH = Cons.IH [OF run]
  have nth: "(t # ts) ! (m' - k) = ts ! (m' - Suc k)" if "Suc k \<le> m'" for m'
  proof -
    from that have "m' - k = Suc (m' - Suc k)" by arith
    then show ?thesis by simp
  qed
  show ?case
  proof (cases "case best of None \<Rightarrow> True | Some (b, _, _) \<Rightarrow> v0 < b")
    case replace: True
    then have b': "best' = Some (v0, k, trial_schedule g f ms k t)" by (simp add: best'_def)
    with IH obtain bm m s where res: "res = Some (bm, m, s)" by (cases res) auto
    from IH res have A: "\<And>m'. Suc k \<le> m' \<Longrightarrow> m' < Suc k + length ts \<Longrightarrow>
        \<exists>v. trial_makespan g f ms m' (ts ! (m' - Suc k)) = Inr v \<and> bm \<le> v"
      by blast
    from replace b' res have ne: "res = best' \<Longrightarrow> res \<noteq> best"
      by (cases best) auto
    have le0: "bm \<le> v0"
    proof (cases "res = best'")
      case True with res b' show ?thesis by simp
    next
      case False
      with IH res b' have "bm < v0" by blast
      then show ?thesis by simp
    qed
    have A': "\<exists>v. trial_makespan g f ms m' ((t # ts) ! (m' - k)) = Inr v \<and> bm \<le> v"
      if "k \<le> m'" "m' < k + length (t # ts)" for m'
    proof (cases "m' = k")
      case True
      with v0 le0 show ?thesis by simp
    next
      case False
      with that have "Suc k \<le> m'" "m' < Suc k + length ts" by simp_all
      from A [OF this] nth [OF this(1)] show ?thesis by simp
    qed
    have B': "k \<le> m \<and> m < k + length (t # ts) \<and>
               s = trial_schedule g f ms m ((t # ts) ! (m - k)) \<and>
               trial_makespan g f ms m ((t # ts) ! (m - k)) = Inr bm \<and>
               (\<forall>m'. k \<le> m' \<and> m' < m \<longrightarrow>
                  (\<exists>v. trial_makespan g f ms m' ((t # ts) ! (m' - k)) = Inr v \<and> bm < v)) \<and>
               (\<forall>b0 m0 s0. best = Some (b0, m0, s0) \<longrightarrow> bm < b0)"
    proof (cases "res = best'")
      case True
      with res b' have "bm = v0" "m = k" "s = trial_schedule g f ms k t" by auto
      with v0 replace show ?thesis by auto
    next
      case False
      with IH res have B: "Suc k \<le> m" "m < Suc k + length ts"
        "s = trial_schedule g f ms m (ts ! (m - Suc k))"
        "trial_makespan g f ms m (ts ! (m - Suc k)) = Inr bm"
        "\<And>m'. Suc k \<le> m' \<Longrightarrow> m' < m \<Longrightarrow>
           \<exists>v. trial_makespan g f ms m' (ts ! (m' - Suc k)) = Inr v \<and> bm < v"
        by blast+
      from False IH res b' have lt0: "bm < v0" by blast
      have "\<exists>v. trial_makespan g f ms m' ((t # ts) ! (m' - k)) = Inr v \<and> bm < v"
        if "k \<le> m'" "m' < m" for m'
      proof (cases "m' = k")
        case True
        with v0 lt0 show ?thesis by simp
      next
        case False
        with that have "Suc k \<le> m'" by simp
        from B(5) [OF this that(2)] nth [OF this] show ?thesis by simp
      qed
      moreover from replace lt0 have "\<forall>b0 m0 s0. best = Some (b0, m0, s0) \<longrightarrow> bm < b0"
        by auto
      ultimately show ?thesis using B(1-4) nth [OF B(1)] by simp
    qed
    from res A' B' show ?thesis by simp
  next
    case keep: False
    then obtain b0 m0 s0 where best: "best = Some (b0, m0, s0)" and b0: "b0 \<le> v0"
      by (cases best) auto
    from keep have b': "best' = best" by (simp add: best'_def)
    with IH best obtain bm m s where res: "res = Some (bm, m, s)" by (cases res) auto
    from IH res have A: "\<And>m'. Suc k \<le> m' \<Longrightarrow> m' < Suc k + length ts \<Longrightarrow>
        \<exists>v. trial_makespan g f ms m' (ts ! (m' - Suc k)) = Inr v \<and> bm \<le> v"
      by blast
    have le0: "bm \<le> b0"
    proof (cases "res = best")
      case True with res best show ?thesis by simp
    next
      case False
      with IH res b' best have "bm < b0" by blast
      then show ?thesis by simp
    qed
    have A': "\<exists>v. trial_makespan g f ms m' ((t # ts) ! (m' - k)) = Inr v \<and> bm \<le> v"
      if "k \<le> m'" "m' < k + length (t # ts)" for m'
    proof (cases "m' = k")
      case True
      with v0 le0 b0 show ?thesis by simp
    next
      case False
      with that have "Suc k \<le> m'" "m' < Suc k + length ts" by simp_all
      from A [OF this] nth [OF this(1)] show ?thesis by simp
    qed
    have B': "k \<le> m \<and> m < k + length (t # ts) \<and>
               s = trial_schedule g f ms m ((t # ts) ! (m - k)) \<and>
               trial_makespan g f ms m ((t # ts) ! (m - k)) = Inr bm \<and>
               (\<forall>m'. k \<le> m' \<and> m' < m \<longrightarrow>
                  (\<exists>v. trial_makespan g f ms m' ((t # ts) ! (m' - k)) = Inr v \<and> bm < v)) \<and>
               (\<forall>b0 m0 s0. best = Some (b0, m0, s0) \<longrightarrow> bm < b0)"
      if neq: "res \<noteq> best"
    proof -
      from neq b' IH res have B: "Suc k \<le> m" "m < Suc k + length ts"
        "s = trial_schedule g f ms m (ts ! (m - Suc k))"
        "trial_makespan g f ms m (ts ! (m - Suc k)) = Inr bm"
        "\<And>m'. Suc k \<le> m' \<Longrightarrow> m' < m \<Longrightarrow>
           \<exists>v. trial_makespan g f ms m' (ts ! (m' - Suc k)) = Inr v \<and> bm < v"
        by blast+
      from neq IH res b' best have lt0: "bm < b0" by blast
      have "\<exists>v. trial_makespan g f ms m' ((t # ts) ! (m' - k)) = Inr v \<and> bm < v"
        if "k \<le> m'" "m' < m" for m'
      proof (cases "m' = k")
        case True
        with v0 lt0 b0 show ?thesis by simp
      next
        case False
        with that have "Suc k \<le> m'" by simp
        from B(5) [OF this that(2)] nth [OF this] show ?thesis by simp
      qed
      moreover from best lt0 have "\<forall>b0 m0 s0. best = Some (b0, m0, s0) \<longrightarrow> bm < b0"
        by auto
      ultimately show ?thesis using B(1-4) nth [OF B(1)] by simp
    qed
    from res A' B' show ?thesis by simp
  qed
qed

section \<open>The single-factory decoder\<close>

lemma py_index_Inr: "py_index n i = Inr k \<Longrightarrow> k < n"
  by (auto simp: py_index_def split: if_splits)

lemma py_index_error: "py_index n i = Inl e \<Longrightarrow> e = IndexError"
  by (auto simp: py_index_def split: if_splits)

lemma py_get_Inr: "py_get xs i = Inr x \<Longrightarrow> x \<in> set xs"
  by (auto simp: py_get_def split: sum.splits dest: py_index_Inr)

lemma py_get_error: "py_get xs i = Inl e \<Longrightarrow> e = IndexError"
  by (auto simp: py_get_def split: sum.splits dest: py_index_error)

lemma resolve_operation_Inr:
  "resolve_operation jobs gene oc = Inr operation \<Longrightarrow> \<exists>job \<in> set jobs. operation \<in> set job"
  by (auto simp: resolve_operation_def split: sum.splits dest: py_get_Inr)

lemma increment_counter_length:
  "increment_counter oc gene = Inr oc' \<Longrightarrow> length oc' = length oc"
  by (auto simp: increment_counter_def split: sum.splits)

text \<open>What a successful iteration of the outer loop has done.\<close>

lemma decode_gene_Inr:
  assumes "decode_gene jobs gene (oc, ms) = Inr (oc', ms')"
  shows "\<exists>operation bm m.
           resolve_operation jobs gene oc = Inr operation \<and>
           increment_counter oc gene = Inr oc' \<and>
           length operation \<le> length ms \<and> m < length operation \<and>
           ms' = ms[m := trial_schedule gene (finish_time_of_last_operation gene ms) ms m (operation ! m)] \<and>
           trial_makespan gene (finish_time_of_last_operation gene ms) ms m (operation ! m) = Inr bm \<and>
           (\<forall>m' < length operation.
              \<exists>v. trial_makespan gene (finish_time_of_last_operation gene ms) ms m' (operation ! m') = Inr v \<and>
                  bm \<le> v \<and> (m' < m \<longrightarrow> bm < v))"
proof -
  let ?f = "finish_time_of_last_operation gene ms"
  from assms obtain operation bm m s where
    op: "resolve_operation jobs gene oc = Inr operation"
    and sel: "select_machine gene ?f ms (enumerate 0 operation) None = Inr (Some (bm, m, s))"
    and inc: "increment_counter oc gene = Inr oc'"
    and ms': "ms' = ms[m := s]"
    by (auto simp: decode_gene_def Let_def split: sum.splits option.splits)
  from select_machine_first_minimum [OF sel]
  have A: "\<And>m'. m' < length operation \<Longrightarrow>
             \<exists>v. trial_makespan gene ?f ms m' (operation ! m') = Inr v \<and> bm \<le> v"
    and B: "m < length operation" "s = trial_schedule gene ?f ms m (operation ! m)"
      "trial_makespan gene ?f ms m (operation ! m) = Inr bm"
      "\<And>m'. m' < m \<Longrightarrow> \<exists>v. trial_makespan gene ?f ms m' (operation ! m') = Inr v \<and> bm < v"
    by auto
  from B(1) have "operation \<noteq> []" by auto
  from select_machine_in_range [OF sel this] have len: "length operation \<le> length ms" by simp
  have "\<exists>v. trial_makespan gene ?f ms m' (operation ! m') = Inr v \<and> bm \<le> v \<and> (m' < m \<longrightarrow> bm < v)"
    if "m' < length operation" for m'
    using A [OF that] B(4) [of m'] by auto
  with op inc len B(1-3) ms' show ?thesis by blast
qed

lemma committed_update:
  assumes "m < length ms" "mset x = add_mset s (mset (ms ! m))"
  shows "committed (ms[m := x]) = add_mset s (committed ms)"
proof -
  from id_take_nth_drop [OF assms(1)]
  have "concat ms = concat (take m ms @ ms ! m # drop (Suc m) ms)"
    by (rule arg_cong)
  then have old: "committed ms
      = mset (concat (take m ms)) + mset (ms ! m) + mset (concat (drop (Suc m) ms))"
    unfolding committed_def by simp
  from upd_conv_take_nth_drop [OF assms(1)]
  have "concat (ms[m := x]) = concat (take m ms @ x # drop (Suc m) ms)"
    by (rule arg_cong)
  then have "committed (ms[m := x])
      = mset (concat (take m ms)) + mset x + mset (concat (drop (Suc m) ms))"
    unfolding committed_def by simp
  with old assms(2) show ?thesis by simp
qed

lemma decode_gene_committed:
  assumes "decode_gene jobs gene (oc, ms) = Inr (oc', ms')"
  shows "length ms' = length ms \<and> length oc' = length oc \<and>
         (\<exists>s. committed ms' = add_mset s (committed ms) \<and> slot_job s = gene \<and>
              finish_time_of_last_operation gene ms \<le> slot_start s)"
proof -
  let ?f = "finish_time_of_last_operation gene ms"
  from decode_gene_Inr [OF assms] obtain operation m where
    inc: "increment_counter oc gene = Inr oc'"
    and len: "length operation \<le> length ms" "m < length operation"
    and ms': "ms' = ms[m := trial_schedule gene ?f ms m (operation ! m)]"
    by blast
  from len have m: "m < length ms" by simp
  from mset_insert_operation [of ?f "operation ! m" gene "ms ! m"] obtain st where
    st: "?f \<le> st" "mset (trial_schedule gene ?f ms m (operation ! m))
           = add_mset (gene, st, st + operation ! m) (mset (ms ! m))"
    unfolding trial_schedule_def by blast
  from committed_update [OF m st(2)] ms'
  have "committed ms' = add_mset (gene, st, st + operation ! m) (committed ms)" by simp
  moreover have "slot_job (gene, st, st + operation ! m) = gene"
    "slot_start (gene, st, st + operation ! m) = st"
    by (simp_all add: slot_job_def slot_start_def)
  moreover from ms' have "length ms' = length ms" by simp
  ultimately show ?thesis
    using st(1) increment_counter_length [OF inc] by auto
qed

lemma decode_gene_valid:
  assumes "decode_gene jobs gene (oc, ms) = Inr (oc', ms')"
    and "jobs_positive jobs" and "\<forall>sch \<in> set ms. valid_schedule sch"
  shows "\<forall>sch \<in> set ms'. valid_schedule sch"
proof -
  let ?f = "finish_time_of_last_operation gene ms"
  from decode_gene_Inr [OF assms(1)] obtain operation m where
    op: "resolve_operation jobs gene oc = Inr operation"
    and len: "length operation \<le> length ms"
    and m2: "m < length operation"
    and ms': "ms' = ms[m := trial_schedule gene ?f ms m (operation ! m)]"
    by blast
  from len m2 have m: "m < length ms" "m < length operation" by simp_all
  from resolve_operation_Inr [OF op] assms(2) m(2) have "0 < operation ! m"
    unfolding jobs_positive_def by (meson nth_mem)
  moreover from assms(3) m(1) have "valid_schedule (ms ! m)" by simp
  ultimately have "valid_schedule (trial_schedule gene ?f ms m (operation ! m))"
    unfolding trial_schedule_def by (intro insert_operation_valid)
  with assms(3) show ?thesis
    unfolding ms' using set_update_subset_insert [of ms m] by blast
qed

lemma decode_genes_append:
  "decode_genes jobs (xs @ ys) st =
     (case decode_genes jobs xs st of Inl e \<Rightarrow> Inl e | Inr st' \<Rightarrow> decode_genes jobs ys st')"
  by (induction xs arbitrary: st) (simp_all split: sum.splits)

lemma decode_genes_size:
  "decode_genes jobs genome (oc, ms) = Inr (oc', ms') \<Longrightarrow>
   length ms' = length ms \<and> size (committed ms') = size (committed ms) + length genome"
proof (induction genome arbitrary: oc ms)
  case Nil
  then show ?case by simp
next
  case (Cons gene genome)
  from Cons.prems obtain oc1 ms1 where
    step: "decode_gene jobs gene (oc, ms) = Inr (oc1, ms1)"
    and rest: "decode_genes jobs genome (oc1, ms1) = Inr (oc', ms')"
    by (auto split: sum.splits)
  from decode_gene_committed [OF step] have "length ms1 = length ms"
    "size (committed ms1) = Suc (size (committed ms))" by auto
  with Cons.IH [OF rest] show ?case by simp
qed

lemma decode_genes_valid:
  "decode_genes jobs genome (oc, ms) = Inr (oc', ms') \<Longrightarrow> jobs_positive jobs \<Longrightarrow>
   \<forall>sch \<in> set ms. valid_schedule sch \<Longrightarrow> \<forall>sch \<in> set ms'. valid_schedule sch"
proof (induction genome arbitrary: oc ms)
  case Nil
  then show ?case by simp
next
  case (Cons gene genome)
  from Cons.prems(1) obtain oc1 ms1 where
    step: "decode_gene jobs gene (oc, ms) = Inr (oc1, ms1)"
    and rest: "decode_genes jobs genome (oc1, ms1) = Inr (oc', ms')"
    by (auto split: sum.splits)
  from decode_gene_valid [OF step Cons.prems(2,3)] Cons.IH [OF rest Cons.prems(2)]
  show ?case by blast
qed

lemma valid_schedule_Nil: "valid_schedule []"
  by (simp add: valid_schedule_iff_chain slots_wf_def slot_chain_def)

lemma committed_replicate_Nil: "committed (replicate n []) = {#}"
  by (induction n) (simp_all add: committed_def)

lemma schedule_in_single_factory_size:
  assumes "schedule_in_single_factory genome jobs n_machines = Inr ms"
  shows "length ms = nat n_machines \<and> size (committed ms) = length genome"
proof -
  from assms obtain oc where
    "decode_genes jobs genome (replicate (length jobs) 0, replicate (nat n_machines) []) = Inr (oc, ms)"
    by (auto simp: schedule_in_single_factory_def initial_state_def split: sum.splits)
  from decode_genes_size [OF this] show ?thesis by (simp add: committed_replicate_Nil)
qed

lemma schedule_in_single_factory_valid:
  assumes "schedule_in_single_factory genome jobs n_machines = Inr ms" "jobs_positive jobs"
  shows "\<forall>sch \<in> set ms. valid_schedule sch"
proof -
  from assms obtain oc where
    "decode_genes jobs genome (replicate (length jobs) 0, replicate (nat n_machines) []) = Inr (oc, ms)"
    by (auto simp: schedule_in_single_factory_def initial_state_def split: sum.splits)
  from decode_genes_valid [OF this assms(2)] show ?thesis by (simp add: valid_schedule_Nil)
qed

section \<open>The multi-factory orchestrator\<close>

lemma split_genome_Cons:
  "split_genome (p # rest) subs =
     (case py_index (length subs) (snd p) of
        Inl e \<Rightarrow> Inl e
      | Inr i \<Rightarrow> split_genome rest (subs[i := subs ! i @ [fst p]]))"
  by (cases p) (auto split: sum.splits)

lemma split_genome_append:
  "split_genome (xs @ ys) subs =
     (case split_genome xs subs of Inl e \<Rightarrow> Inl e | Inr subs' \<Rightarrow> split_genome ys subs')"
proof (induction xs arbitrary: subs)
  case Nil
  show ?case by simp
next
  case (Cons p xs)
  show ?case
    by (simp add: split_genome_Cons Cons.IH del: split_genome.simps split: sum.splits)
qed

lemma split_genome_length:
  "split_genome ps subs = Inr subs' \<Longrightarrow> length subs' = length subs"
proof (induction ps arbitrary: subs)
  case Nil
  then show ?case by simp
next
  case (Cons p ps)
  from Cons.prems obtain i where
    "split_genome ps (subs[i := subs ! i @ [fst p]]) = Inr subs'"
    by (auto simp: split_genome_Cons simp del: split_genome.simps split: sum.splits)
  from Cons.IH [OF this] show ?case by simp
qed

lemma sum_list_length_update:
  assumes "i < length subs"
  shows "sum_list (map length (subs[i := subs ! i @ [x]])) = Suc (sum_list (map length subs))"
proof -
  from id_take_nth_drop [OF assms]
  have "map length subs = map length (take i subs @ subs ! i # drop (Suc i) subs)"
    by (rule arg_cong)
  moreover from upd_conv_take_nth_drop [OF assms]
  have "map length (subs[i := subs ! i @ [x]])
      = map length (take i subs @ (subs ! i @ [x]) # drop (Suc i) subs)"
    by (rule arg_cong)
  ultimately show ?thesis by simp
qed

lemma split_genome_total:
  "split_genome ps subs = Inr subs' \<Longrightarrow>
   sum_list (map length subs') = sum_list (map length subs) + length ps"
proof (induction ps arbitrary: subs)
  case Nil
  then show ?case by simp
next
  case (Cons p ps)
  from Cons.prems obtain i where i: "py_index (length subs) (snd p) = Inr i"
    and rest: "split_genome ps (subs[i := subs ! i @ [fst p]]) = Inr subs'"
    by (auto simp: split_genome_Cons simp del: split_genome.simps split: sum.splits)
  from py_index_Inr [OF i] have "i < length subs" .
  from Cons.IH [OF rest] sum_list_length_update [OF this] show ?case by simp
qed

lemma split_genome_out_of_range:
  assumes "p \<in> set ps" "snd p < - int (length subs) \<or> int (length subs) \<le> snd p"
  shows "split_genome ps subs = Inl IndexError"
  using assms
proof (induction ps arbitrary: subs)
  case Nil
  then show ?case by simp
next
  case (Cons q ps)
  show ?case
  proof (cases "py_index (length subs) (snd q)")
    case (Inl e)
    with py_index_error [OF Inl] show ?thesis
      by (simp add: split_genome_Cons del: split_genome.simps)
  next
    case (Inr i)
    with Cons.prems have "p \<noteq> q" by (auto simp: py_index_def split: if_splits)
    with Cons.prems have "p \<in> set ps" by simp
    moreover from Cons.prems(2)
    have "snd p < - int (length (subs[i := subs ! i @ [fst q]]))
          \<or> int (length (subs[i := subs ! i @ [fst q]])) \<le> snd p" by simp
    ultimately have "split_genome ps (subs[i := subs ! i @ [fst q]]) = Inl IndexError"
      by (rule Cons.IH)
    with Inr show ?thesis by (simp add: split_genome_Cons del: split_genome.simps)
  qed
qed

lemma py_index_wrap:
  "- int n \<le> i \<Longrightarrow> i < 0 \<Longrightarrow> py_index n (i + int n) = py_index n i"
  by (auto simp: py_index_def add.commute)

lemma split_genome_wrap:
  assumes "n = length subs" "\<forall>p \<in> set ps. - int n \<le> snd p \<and> snd p < int n"
  shows "split_genome (map (\<lambda>p. (fst p, if snd p < 0 then snd p + int n else snd p)) ps) subs
         = split_genome ps subs"
  using assms
proof (induction ps arbitrary: subs)
  case Nil
  show ?case by simp
next
  case (Cons q ps)
  from Cons.prems have q: "- int (length subs) \<le> snd q" "snd q < int (length subs)" by simp_all
  have IH: "split_genome (map (\<lambda>p. (fst p, if snd p < 0 then snd p + int n else snd p)) ps)
          (subs[i := y]) = split_genome ps (subs[i := y])" for i y
    using Cons.prems by (intro Cons.IH) simp_all
  from Cons.prems(1) q(1)
  have "py_index (length subs) (if snd q < 0 then snd q + int n else snd q)
        = py_index (length subs) (snd q)" by (simp add: py_index_wrap)
  then show ?case
    unfolding list.map split_genome_Cons snd_conv fst_conv IH by simp
qed

lemma decode_factories_iff:
  "decode_factories subs jobs n_machines = Inr S \<longleftrightarrow>
   list_all2 (\<lambda>sub sched. schedule_in_single_factory sub jobs n_machines = Inr sched) subs S"
proof (induction subs arbitrary: S)
  case Nil
  show ?case by auto
next
  case (Cons sub subs)
  show ?case
    by (cases S) (auto simp flip: Cons.IH split: sum.splits)
qed

lemma schedule_in_multiple_factory_Inr:
  assumes "schedule_in_multiple_factory og fg jobs nm nf = Inr (mk, S)"
  shows "\<exists>subs. split_genome (zip og fg) (replicate (nat nf) []) = Inr subs \<and>
           list_all2 (\<lambda>sub sched. schedule_in_single_factory sub jobs nm = Inr sched) subs S \<and>
           makespan (concat S) = Inr mk"
  using assms
  by (auto simp: schedule_in_multiple_factory_def decode_factories_iff split: sum.splits)

lemma sum_list_replicate_Nil: "sum_list (map length (replicate n [])) = 0"
  by (induction n) simp_all

lemma list_all2_total_slots:
  "list_all2 (\<lambda>sub sched. length (concat sched) = length sub) subs S \<Longrightarrow>
   length (concat (concat S)) = sum_list (map length subs)"
  by (induction rule: list_all2_induct) simp_all

text \<open>
  C5. When the two genomes have the same length and the orchestrator returns a result,
  the machine schedules of all factories hold, together, as many slots as the
  operation-genome has genes.
\<close>

theorem committed_slots_equal_genome_length:
  assumes "length operation_genome = length factory_genome"
    and "schedule_in_multiple_factory operation_genome factory_genome jobs n_machines n_factories
         = Inr (m, schedules)"
  shows "length (concat (concat schedules)) = length operation_genome"
proof -
  from schedule_in_multiple_factory_Inr [OF assms(2)] obtain subs where
    split: "split_genome (zip operation_genome factory_genome) (replicate (nat n_factories) []) = Inr subs"
    and all: "list_all2 (\<lambda>sub sched. schedule_in_single_factory sub jobs n_machines = Inr sched)
                subs schedules"
    by blast
  have "length (concat sched) = length sub"
    if "schedule_in_single_factory sub jobs n_machines = Inr sched" for sub sched
    using schedule_in_single_factory_size [OF that] by (simp add: committed_def)
  with all have "list_all2 (\<lambda>sub sched. length (concat sched) = length sub) subs schedules"
    by (rule list_all2_mono)
  then have "length (concat (concat schedules)) = sum_list (map length subs)"
    by (rule list_all2_total_slots)
  also from split_genome_total [OF split] assms(1)
  have "sum_list (map length subs) = length operation_genome"
    by (simp add: sum_list_replicate_Nil)
  finally show ?thesis .
qed

text \<open>
  C3 (amended). The orchestrator does not compare the lengths of the two genomes:
  \<open>zip\<close> stops at the shorter one, and the result is the result for both genomes cut to
  the length of the shorter.
\<close>

theorem genomes_cut_to_shorter:
  "schedule_in_multiple_factory operation_genome factory_genome jobs n_machines n_factories =
   schedule_in_multiple_factory
     (take (min (length operation_genome) (length factory_genome)) operation_genome)
     (take (min (length operation_genome) (length factory_genome)) factory_genome)
     jobs n_machines n_factories"
proof -
  have "zip (take (min (length operation_genome) (length factory_genome)) operation_genome)
            (take (min (length operation_genome) (length factory_genome)) factory_genome)
        = take (length (zip operation_genome factory_genome)) (zip operation_genome factory_genome)"
    by (simp only: take_zip length_zip)
  then show ?thesis by (simp add: schedule_in_multiple_factory_def)
qed

text \<open>
  C10 (amended). A factory index that is paired with a gene and lies outside
  \<open>[-n_factories, n_factories)\<close> makes the orchestrator raise IndexError. An index in
  \<open>[-n_factories, 0)\<close> is accepted and counts from the last factory, as Python's list
  indexing does: the result is the one for the index plus \<open>n_factories\<close>.
\<close>

theorem factory_index_outside_list_fails:
  "(k < length operation_genome \<and> k < length factory_genome \<and>
    (factory_genome ! k < - int (nat n_factories) \<or> int (nat n_factories) \<le> factory_genome ! k)
    \<longrightarrow> schedule_in_multiple_factory operation_genome factory_genome jobs n_machines n_factories
        = Inl IndexError) \<and>
   ((\<forall>fac \<in> set factory_genome. - int (nat n_factories) \<le> fac \<and> fac < int (nat n_factories))
    \<longrightarrow> schedule_in_multiple_factory operation_genome
          (map (\<lambda>fac. if fac < 0 then fac + int (nat n_factories) else fac) factory_genome)
          jobs n_machines n_factories
        = schedule_in_multiple_factory operation_genome factory_genome jobs n_machines n_factories)"
proof (intro conjI impI)
  assume a: "k < length operation_genome \<and> k < length factory_genome \<and>
    (factory_genome ! k < - int (nat n_factories) \<or> int (nat n_factories) \<le> factory_genome ! k)"
  let ?p = "(operation_genome ! k, factory_genome ! k)"
  from a have "?p \<in> set (zip operation_genome factory_genome)"
    by (auto simp: in_set_zip)
  moreover from a have "snd ?p < - int (length (replicate (nat n_factories) ([]::int list)))
      \<or> int (length (replicate (nat n_factories) ([]::int list))) \<le> snd ?p" by simp
  ultimately have "split_genome (zip operation_genome factory_genome) (replicate (nat n_factories) [])
      = Inl IndexError"
    by (rule split_genome_out_of_range)
  then show "schedule_in_multiple_factory operation_genome factory_genome jobs n_machines n_factories
        = Inl IndexError"
    by (simp add: schedule_in_multiple_factory_def)
next
  assume a: "\<forall>fac \<in> set factory_genome. - int (nat n_factories) \<le> fac \<and> fac < int (nat n_factories)"
  let ?n = "nat n_factories"
  have z: "zip operation_genome (map (\<lambda>fac. if fac < 0 then fac + int ?n else fac) factory_genome)
      = map (\<lambda>p. (fst p, if snd p < 0 then snd p + int ?n else snd p)) (zip operation_genome factory_genome)"
    by (simp add: zip_map2 case_prod_beta)
  have "\<forall>p \<in> set (zip operation_genome factory_genome). - int ?n \<le> snd p \<and> snd p < int ?n"
    using a by (auto dest: set_zip_rightD)
  then have "split_genome (map (\<lambda>p. (fst p, if snd p < 0 then snd p + int ?n else snd p))
                 (zip operation_genome factory_genome)) (replicate ?n [])
             = split_genome (zip operation_genome factory_genome) (replicate ?n [])"
    by (intro split_genome_wrap) simp_all
  then show "schedule_in_multiple_factory operation_genome
          (map (\<lambda>fac. if fac < 0 then fac + int (nat n_factories) else fac) factory_genome)
          jobs n_machines n_factories
        = schedule_in_multiple_factory operation_genome factory_genome jobs n_machines n_factories"
    unfolding schedule_in_multiple_factory_def z by simp
qed

text \<open>
  C3 as stated fails: with two genes and one factory index the orchestrator returns a
  makespan and a schedule, in which only the first gene is scheduled.
\<close>

theorem genomes_of_different_length_counterexample:
  "schedule_in_multiple_factory [0, 0] [0] [[[5], [5]]] 1 1 = Inr (5, [[[(0, 0, 5)]]])"
  by code_simp

text \<open>
  C10 as stated fails: the factory index \<open>-1\<close> lies outside \<open>[0, 2)\<close>, and the
  orchestrator returns a schedule, with the gene decoded in the last factory.
\<close>

theorem negative_factory_index_counterexample:
  "schedule_in_multiple_factory [0] [- 1] [[[5]]] 1 2 = Inr (5, [[[]], [[(0, 0, 5)]]])"
  by code_simp

text \<open>C10 (amended), at the factory indices \<open>2\<close> and \<open>-1\<close> with two factories.\<close>

theorem factory_index_outside_list_fails_witness:
  "(0::nat) < length [0::int] \<and> (0::nat) < length [2::int] \<and>
   int (nat 2) \<le> [2::int] ! 0 \<and>
   schedule_in_multiple_factory [0] [2] [[[5]]] 1 2 = Inl IndexError \<and>
   - int (nat 2) \<le> (- 1::int) \<and> (- 1::int) < int (nat 2) \<and>
   schedule_in_multiple_factory [0] [1] [[[5]]] 1 2
     = schedule_in_multiple_factory [0] [- 1] [[[5]]] 1 2"
  using factory_index_outside_list_fails [of 0 "[0]" "[2]" 2 "[[[5]]]" 1]
        factory_index_outside_list_fails [of 0 "[0]" "[- 1]" 2 "[[[5]]]" 1]
  by simp

text \<open>C5 on the genome pair and the jobs of \<open>src/example.py\<close>.\<close>

theorem committed_slots_equal_genome_length_witness:
  "length [2,2,1,0,1,0,1,2::int] = length [0,0,0,1,0,1,0,0::int] \<and>
   schedule_in_multiple_factory [2,2,1,0,1,0,1,2] [0,0,0,1,0,1,0,0]
     [[[7,10,11],[2,8,INF_sentinel]],[[7,6,10],[9,9,7],[12,7,13]],[[17,INF_sentinel,9],[14,10,INF_sentinel],[10,6,5]]] 3 2
   = Inr (26, [[[(1, 0, 7), (1, 7, 16)], [(2, 9, 19), (1, 19, 26)], [(2, 0, 9), (2, 19, 24)]],
               [[(0, 0, 7), (0, 7, 9)], [], []]]) \<and>
   length (concat (concat [[[(1, 0, 7), (1, 7, 16)], [(2, 9, 19), (1, 19, 26)], [(2, 0, 9), (2, 19, 24)]],
               [[(0::int, 0::int, 7::int), (0, 7, 9)], [], []]])) = length [2,2,1,0,1,0,1,2::int]"
proof -
  have run: "schedule_in_multiple_factory [2,2,1,0,1,0,1,2] [0,0,0,1,0,1,0,0]
     [[[7,10,11],[2,8,INF_sentinel]],[[7,6,10],[9,9,7],[12,7,13]],[[17,INF_sentinel,9],[14,10,INF_sentinel],[10,6,5]]] 3 2
   = Inr (26, [[[(1, 0, 7), (1, 7, 16)], [(2, 9, 19), (1, 19, 26)], [(2, 0, 9), (2, 19, 24)]],
               [[(0, 0, 7), (0, 7, 9)], [], []]])"
    by code_simp
  have len: "length [2,2,1,0,1,0,1,2::int] = length [0,0,0,1,0,1,0,0::int]" by simp
  from committed_slots_equal_genome_length [OF len run] run len show ?thesis by blast
qed

lemma schedule_in_multiple_factory_valid:
  assumes "schedule_in_multiple_factory og fg jobs nm nf = Inr (mk, S)" "jobs_positive jobs"
    and "factory \<in> set S" "sch \<in> set factory"
  shows "valid_schedule sch"
proof -
  from schedule_in_multiple_factory_Inr [OF assms(1)] obtain subs where
    "list_all2 (\<lambda>sub sched. schedule_in_single_factory sub jobs nm = Inr sched) subs S"
    by blast
  with assms(3) obtain sub where "schedule_in_single_factory sub jobs nm = Inr factory"
    by (auto simp: list_all2_conv_all_nth in_set_conv_nth)
  from schedule_in_single_factory_valid [OF this assms(2)] assms(4) show ?thesis by blast
qed

text \<open>
  C4. Inserting an operation with a positive processing time into a valid machine
  schedule (slots well formed, sorted by start, pairwise disjoint) gives a valid
  machine schedule with one slot more, for every earliest start. Hence, for jobs whose
  processing times are all positive, every machine schedule that the decoder returns is
  valid, and in particular has no two overlapping slots.
\<close>

theorem insertion_keeps_schedule_valid:
  "(valid_schedule schedule \<and> 0 < time_of_operation \<longrightarrow>
      valid_schedule (insert_operation_to_schedule time_of_operation job_of_operation
                        finish_time_of_previous_operation schedule) \<and>
      length (insert_operation_to_schedule time_of_operation job_of_operation
                finish_time_of_previous_operation schedule) = Suc (length schedule)) \<and>
   (jobs_positive jobs \<and>
    schedule_in_multiple_factory operation_genome factory_genome jobs n_machines n_factories
      = Inr (m, schedules) \<longrightarrow>
      (\<forall>schedule_in_factory \<in> set schedules. \<forall>machine_schedule \<in> set schedule_in_factory.
         valid_schedule machine_schedule \<and> non_overlapping machine_schedule))"
proof (intro conjI impI ballI)
  assume "valid_schedule schedule \<and> 0 < time_of_operation"
  then show "valid_schedule (insert_operation_to_schedule time_of_operation job_of_operation
                        finish_time_of_previous_operation schedule)"
    by (simp add: insert_operation_valid)
next
  show "length (insert_operation_to_schedule time_of_operation job_of_operation
                finish_time_of_previous_operation schedule) = Suc (length schedule)"
    by (rule length_insert_operation)
next
  fix schedule_in_factory machine_schedule
  assume a: "jobs_positive jobs \<and>
    schedule_in_multiple_factory operation_genome factory_genome jobs n_machines n_factories
      = Inr (m, schedules)"
    and b: "schedule_in_factory \<in> set schedules" "machine_schedule \<in> set schedule_in_factory"
  from a b show v: "valid_schedule machine_schedule"
    by (blast intro: schedule_in_multiple_factory_valid)
  then show "non_overlapping machine_schedule" by (simp add: valid_schedule_def)
qed

text \<open>
  C4 on the example of the docstring of \<open>insert_operation_to_schedule\<close> and on the genome
  pair and the jobs of \<open>src/example.py\<close>.
\<close>

theorem insertion_keeps_schedule_valid_witness:
  "valid_schedule [(1, 1, 3), (2, 6, 9), (1, 20, 22)] \<and> (0::int) < 7 \<and>
   insert_operation_to_schedule 7 3 0 [(1, 1, 3), (2, 6, 9), (1, 20, 22)]
     = [(1, 1, 3), (2, 6, 9), (3, 9, 16), (1, 20, 22)] \<and>
   valid_schedule [(1, 1, 3), (2, 6, 9), (3, 9, 16), (1, 20, 22)] \<and>
   jobs_positive [[[7, 10, 11], [2, 8, INF_sentinel]],
                  [[7, 6, 10], [9, 9, 7], [12, 7, 13]],
                  [[17, INF_sentinel, 9], [14, 10, INF_sentinel], [10, 6, 5]]] \<and>
   schedule_in_multiple_factory [2, 2, 1, 0, 1, 0, 1, 2] [0, 0, 0, 1, 0, 1, 0, 0]
     [[[7, 10, 11], [2, 8, INF_sentinel]],
      [[7, 6, 10], [9, 9, 7], [12, 7, 13]],
      [[17, INF_sentinel, 9], [14, 10, INF_sentinel], [10, 6, 5]]] 3 2
   = Inr (26, [[[(1, 0, 7), (1, 7, 16)], [(2, 9, 19), (1, 19, 26)], [(2, 0, 9), (2, 19, 24)]],
               [[(0, 0, 7), (0, 7, 9)], [], []]]) \<and>
   valid_schedule [(2, 9, 19), (1, 19, 26)] \<and> non_overlapping [(2, 9, 19), (1, 19, 26)]"
proof -
  let ?jobs = "[[[7, 10, 11], [2, 8, INF_sentinel]],
                  [[7, 6, 10], [9, 9, 7], [12, 7, 13]],
                  [[17, INF_sentinel, 9], [14, 10, INF_sentinel], [10, 6, 5]]]"
  let ?S = "[[[(1, 0, 7), (1, 7, 16)], [(2, 9, 19), (1, 19, 26)], [(2, 0, 9), (2, 19, 24)]],
               [[(0::int, 0::int, 7::int), (0, 7, 9)], [], []]]"
  have v: "valid_schedule [(1, 1, 3), (2, 6, 9), (1, 20, 22)]"
    by (simp add: valid_schedule_iff_chain slots_wf_def slot_chain_def slot_start_def slot_end_def)
  have ins: "insert_operation_to_schedule 7 3 0 [(1, 1, 3), (2, 6, 9), (1, 20, 22)]
     = [(1, 1, 3), (2, 6, 9), (3, 9, 16), (1, 20, 22)]"
    by code_simp
  have pos: "jobs_positive ?jobs"
    by (simp add: jobs_positive_def INF_sentinel_def)
  have run: "schedule_in_multiple_factory [2, 2, 1, 0, 1, 0, 1, 2] [0, 0, 0, 1, 0, 1, 0, 0] ?jobs 3 2
      = Inr (26, ?S)"
    by code_simp
  from insertion_keeps_schedule_valid
         [of "[(1, 1, 3), (2, 6, 9), (1, 20, 22)]" 7 3 0 ?jobs "[2, 2, 1, 0, 1, 0, 1, 2]"
             "[0, 0, 0, 1, 0, 1, 0, 0]" 3 2 26 ?S]
       v pos run
  have "valid_schedule (insert_operation_to_schedule 7 3 0 [(1, 1, 3), (2, 6, 9), (1, 20, 22)])"
    and "\<forall>f \<in> set ?S. \<forall>ms \<in> set f. valid_schedule ms \<and> non_overlapping ms"
    by simp_all
  then have "valid_schedule [(1, 1, 3), (2, 6, 9), (3, 9, 16), (1, 20, 22)]"
    and "valid_schedule [(2, 9, 19), (1, 19, 26)] \<and> non_overlapping [(2, 9, 19), (1, 19, 26)]"
    unfolding ins by simp_all
  with v ins pos run show ?thesis by simp
qed



section \<open>Precedence within a job\<close>

lemma split_genome_snoc:
  assumes "split_genome (ps @ [(gene, fac)]) subs0 = Inr subs'"
  shows "\<exists>subs i. split_genome ps subs0 = Inr subs \<and> py_index (length subs) fac = Inr i \<and>
           subs' = subs[i := subs ! i @ [gene]]"
  using assms by (auto simp: split_genome_append split: sum.splits)


lemma makespan_Inr_iff: "(\<exists>m. makespan schedules = Inr m) \<longleftrightarrow> schedules \<noteq> []"
  by (cases schedules) (simp_all add: makespan_Nil makespan_Cons)

lemma concat_update_nonempty:
  assumes "concat S' \<noteq> []" "i < length S'" "length x = length (S' ! i)"
  shows "concat (S'[i := x]) \<noteq> []"
proof -
  from assms(1) obtain f where "f \<in> set S'" "f \<noteq> []" by auto
  then obtain k where k: "k < length S'" "S' ! k \<noteq> []"
    by (auto simp: in_set_conv_nth)
  have "S'[i := x] ! k \<noteq> []"
  proof (cases "k = i")
    case True
    with k assms(2,3) show ?thesis by auto
  next
    case False
    with k show ?thesis by simp
  qed
  moreover from k have "S'[i := x] ! k \<in> set (S'[i := x])"
    by (intro nth_mem) simp
  ultimately show ?thesis by (simp only: concat_eq_Nil_conv) blast
qed

text \<open>
  C1 as stated fails: the first gene of job 0 is assigned to factory 0 and the second to
  factory 1. Each factory starts its own operation counter at 0 and looks at its own
  machine schedules only, so each commits the slot \<open>(0, 0, 5)\<close>: the second slot of the
  job starts at 0, before the first ends at 5.
\<close>

theorem precedence_across_factories_counterexample:
  "schedule_in_multiple_factory [0] [0] [[[5], [5]]] 1 2 = Inr (5, [[[(0, 0, 5)]], [[]]]) \<and>
   schedule_in_multiple_factory [0, 0] [0, 1] [[[5], [5]]] 1 2
     = Inr (5, [[[(0, 0, 5)]], [[(0, 0, 5)]]]) \<and>
   slot_job (0, 0, 5) = 0 \<and>
   slot_start (0, 0, 5) < slot_end (0, 0, 5)"
proof -
  have "schedule_in_multiple_factory [0] [0] [[[5], [5]]] 1 2 = Inr (5, [[[(0, 0, 5)]], [[]]])"
    by code_simp
  moreover have "schedule_in_multiple_factory [0, 0] [0, 1] [[[5], [5]]] 1 2
     = Inr (5, [[[(0, 0, 5)]], [[(0, 0, 5)]]])"
    by code_simp
  ultimately show ?thesis by (simp add: slot_job_def slot_start_def slot_end_def)
qed

section \<open>The sentinel\<close>

lemma valid_slot_end_le_finish:
  assumes "valid_schedule sch" "s \<in> set sch"
  shows "slot_end s \<le> finish_time_of sch"
proof -
  from assms(1) have wf: "slots_wf sch" and ch: "slot_chain sch"
    by (simp_all add: valid_schedule_iff_chain)
  from assms(2) obtain k where k: "k < length sch" "s = sch ! k"
    by (auto simp: in_set_conv_nth)
  then have ne: "sch \<noteq> []" by auto
  have "slot_end (sch ! k) \<le> slot_end (last sch)"
  proof (cases "k = length sch - 1")
    case True
    with ne show ?thesis by (simp add: last_conv_nth)
  next
    case False
    with k have lt: "k < length sch - 1" by simp
    from slot_chain_nth [OF ch lt] slots_wf_nth [OF wf, of "length sch - 1"] ne
    show ?thesis by (simp add: last_conv_nth)
  qed
  with k ne show ?thesis by (simp add: finish_time_of_def)
qed

lemma makespan_ge_finish:
  assumes "sch \<in> set ms" "makespan ms = Inr cur"
  shows "finish_time_of sch \<le> cur"
proof -
  from assms(1) have "ms \<noteq> []" by auto
  from makespan_Max [OF this] assms(2) have "cur = Max (finish_time_of ` set ms)" by simp
  with assms(1) show ?thesis by simp
qed

lemma finish_time_of_last_operation_le_makespan:
  assumes "\<forall>sch \<in> set ms. valid_schedule sch" "makespan ms = Inr cur"
  shows "finish_time_of_last_operation job ms \<le> max 0 cur"
proof -
  from finish_time_of_last_operation_cases [of job ms]
  consider "finish_time_of_last_operation job ms = 0"
    | s where "s \<in> set (concat ms)" "finish_time_of_last_operation job ms = slot_end s"
    by blast
  then show ?thesis
  proof cases
    case 1
    then show ?thesis by simp
  next
    case (2 s)
    then obtain sch where sch: "sch \<in> set ms" "s \<in> set sch" by auto
    with assms(1) have "slot_end s \<le> finish_time_of sch"
      by (intro valid_slot_end_le_finish) simp_all
    with makespan_ge_finish [OF sch(1) assms(2)] 2(2) show ?thesis by simp
  qed
qed

lemma trial_makespan_lower:
  assumes "valid_schedule (ms ! m)" "0 < t" "trial_makespan g f ms m t = Inr v"
  shows "f + t \<le> v"
proof -
  let ?x = "trial_schedule g f ms m t"
  from assms(1,2) have v: "valid_schedule ?x"
    unfolding trial_schedule_def by (rule insert_operation_valid)
  from mset_insert_operation [of f t g "ms ! m"] obtain st where
    st: "f \<le> st" "mset ?x = add_mset (g, st, st + t) (mset (ms ! m))"
    unfolding trial_schedule_def by blast
  from st(2) have "(g, st, st + t) \<in># mset ?x" by simp
  then have "(g, st, st + t) \<in> set ?x" by simp
  from valid_slot_end_le_finish [OF v this] have "st + t \<le> finish_time_of ?x"
    by (simp add: slot_end_def)
  moreover from assms(3) have "finish_time_of ?x \<le> v"
    by (auto simp: trial_makespan_value)
  ultimately show ?thesis using st(1) by simp
qed

lemma trial_makespan_upper:
  assumes "m < length ms" "\<forall>sch \<in> set ms. valid_schedule sch" "makespan ms = Inr cur" "0 \<le> t"
    and "trial_makespan g (finish_time_of_last_operation g ms) ms m t = Inr v"
  shows "v \<le> max 0 cur + t"
proof -
  let ?f = "finish_time_of_last_operation g ms"
  let ?x = "trial_schedule g ?f ms m t"
  from assms(1) have mem: "ms ! m \<in> set ms" by simp
  from makespan_ge_finish [OF mem assms(3)] have old: "finish_time_of (ms ! m) \<le> cur" .
  from finish_time_of_last_operation_le_makespan [OF assms(2,3)] have f: "?f \<le> max 0 cur" .
  from finish_time_of_insert_cases
         [where f = ?f and t = t and j = g and sch = "ms ! m",
          OF finish_time_of_last_operation_nonneg]
  have "finish_time_of ?x = finish_time_of (ms ! m) \<or>
        finish_time_of ?x = max ?f (finish_time_of (ms ! m)) + t"
    unfolding trial_schedule_def .
  with old f assms(4) have x: "finish_time_of ?x \<le> max 0 cur + t" by auto
  from mem have ne: "ms \<noteq> []" by auto
  from makespan_Max [OF ne] assms(3) have cur: "cur = Max (finish_time_of ` set ms)" by simp
  from assms(5) have "v = Max (insert (finish_time_of ?x) (finish_time_of ` set ms))"
    by (simp add: trial_makespan_value)
  also from ne have "\<dots> = max (finish_time_of ?x) (Max (finish_time_of ` set ms))"
    by (intro Max_insert) simp_all
  finally have "v = max (finish_time_of ?x) cur" by (simp add: cur)
  with x assms(4) show ?thesis by simp
qed

lemma resolve_operation_increment:
  assumes "resolve_operation jobs gene oc = Inr operation"
  shows "\<exists>oc'. increment_counter oc gene = Inr oc'"
  using assms
  by (auto simp: resolve_operation_def increment_counter_def py_get_def split: sum.splits)

lemma decode_gene_total:
  assumes "resolve_operation jobs gene oc = Inr operation" "operation \<noteq> []"
    and "length operation \<le> length ms"
  shows "\<exists>oc' ms'. decode_gene jobs gene (oc, ms) = Inr (oc', ms')"
proof -
  let ?f = "finish_time_of_last_operation gene ms"
  from assms(3) select_machine_total [of 0 operation ms gene ?f None] obtain res where
    res: "select_machine gene ?f ms (enumerate 0 operation) None = Inr res" by auto
  from select_machine_first_minimum [OF res] assms(2) obtain bm m s where
    "res = Some (bm, m, s)" by (cases res) auto
  with res assms(1) resolve_operation_increment [OF assms(1)] show ?thesis
    by (auto simp: decode_gene_def Let_def)
qed

text \<open>
  C2 (amended). The decoder does not look for the sentinel. An operation whose
  processing time is the sentinel on every machine (with at least one machine, and no
  more entries than there are machine schedules) raises no error: the iteration commits
  one slot of the job, of sentinel length, on one of the machines.
\<close>

theorem all_unavailable_operation_is_committed:
  assumes "resolve_operation jobs gene operation_counter = Inr operation"
    and "operation \<noteq> []" and "length operation \<le> length machine_schedules"
    and "\<forall>machine < length operation. operation ! machine = INF_sentinel"
  shows "\<exists>operation_counter' machine s.
           machine < length operation \<and>
           decode_gene jobs gene (operation_counter, machine_schedules)
             = Inr (operation_counter',
                    machine_schedules[machine :=
                      trial_schedule gene (finish_time_of_last_operation gene machine_schedules)
                        machine_schedules machine INF_sentinel]) \<and>
           committed (machine_schedules[machine :=
                      trial_schedule gene (finish_time_of_last_operation gene machine_schedules)
                        machine_schedules machine INF_sentinel])
             = add_mset s (committed machine_schedules) \<and>
           slot_job s = gene \<and> slot_end s = slot_start s + INF_sentinel"
proof -
  let ?f = "finish_time_of_last_operation gene machine_schedules"
  from decode_gene_total [OF assms(1-3)] obtain oc' ms' where
    run: "decode_gene jobs gene (operation_counter, machine_schedules) = Inr (oc', ms')" by blast
  from decode_gene_Inr [OF run] assms(1) obtain m where
    m: "m < length operation"
    and ms': "ms' = machine_schedules[m := trial_schedule gene ?f machine_schedules m (operation ! m)]"
    by auto
  from m assms(4) have t: "operation ! m = INF_sentinel" by simp
  from mset_insert_operation [of ?f INF_sentinel gene "machine_schedules ! m"] obtain st where
    st: "mset (trial_schedule gene ?f machine_schedules m INF_sentinel)
           = add_mset (gene, st, st + INF_sentinel) (mset (machine_schedules ! m))"
    unfolding trial_schedule_def by blast
  from m assms(3) have "m < length machine_schedules" by simp
  from committed_update [OF this st]
  have "committed (machine_schedules[m := trial_schedule gene ?f machine_schedules m INF_sentinel])
          = add_mset (gene, st, st + INF_sentinel) (committed machine_schedules)" .
  moreover have "slot_job (gene, st, st + INF_sentinel) = gene"
    "slot_end (gene, st, st + INF_sentinel) = slot_start (gene, st, st + INF_sentinel) + INF_sentinel"
    by (simp_all add: slot_job_def slot_start_def slot_end_def)
  ultimately show ?thesis using m run ms' t by metis
qed

text \<open>
  What follows from the comparison of the trial makespans when one machine is
  available: on valid machine schedules, if the makespan reached so far plus the
  processing time on the available machine stays below the sentinel, the available
  machine is committed.
\<close>

lemma decode_gene_sole_available:
  assumes op: "resolve_operation jobs gene oc = Inr operation"
    and len: "length operation \<le> length ms"
    and valid: "\<forall>sch \<in> set ms. valid_schedule sch"
    and a: "a < length operation" "0 < operation ! a" "operation ! a < INF_sentinel"
    and others: "\<forall>m < length operation. m \<noteq> a \<longrightarrow> operation ! m = INF_sentinel"
    and cur: "makespan ms = Inr cur" "cur + operation ! a < INF_sentinel"
  shows "\<exists>oc'. decode_gene jobs gene (oc, ms)
           = Inr (oc', ms[a := trial_schedule gene (finish_time_of_last_operation gene ms) ms a
                                 (operation ! a)])"
proof -
  let ?f = "finish_time_of_last_operation gene ms"
  from a(1) have ne: "operation \<noteq> []" by auto
  from decode_gene_total [OF op ne len] obtain oc' ms' where
    run: "decode_gene jobs gene (oc, ms) = Inr (oc', ms')" by blast
  from decode_gene_Inr [OF run] op obtain bm m where
    m: "m < length operation"
    and ms': "ms' = ms[m := trial_schedule gene ?f ms m (operation ! m)]"
    and bm: "trial_makespan gene ?f ms m (operation ! m) = Inr bm"
    and least: "\<forall>m' < length operation.
        \<exists>v. trial_makespan gene ?f ms m' (operation ! m') = Inr v \<and> bm \<le> v \<and> (m' < m \<longrightarrow> bm < v)"
    by auto
  from least a(1) obtain v where
    v: "trial_makespan gene ?f ms a (operation ! a) = Inr v" "bm \<le> v" by blast
  from a(1) len have "a < length ms" by simp
  from trial_makespan_upper [OF this valid cur(1) _ v(1)] a(2)
  have "v \<le> max 0 cur + operation ! a" by simp
  with a(3) cur(2) have small: "v < INF_sentinel" by simp
  have "m = a"
  proof (rule ccontr)
    assume "m \<noteq> a"
    with others m have t: "operation ! m = INF_sentinel" by simp
    from m len valid have "valid_schedule (ms ! m)" by simp
    moreover have "0 < INF_sentinel" by (simp add: INF_sentinel_def)
    ultimately have "?f + INF_sentinel \<le> bm"
      using bm unfolding t by (rule trial_makespan_lower)
    with finish_time_of_last_operation_nonneg [of gene ms] have "INF_sentinel \<le> bm" by simp
    with v(2) small show False by simp
  qed
  with run ms' show ?thesis by blast
qed

text \<open>
  C9 (amended). The decoder has no notion of availability: the machine is chosen by the
  trial makespans alone. After decoding any genome over jobs with positive processing
  times, an operation with the sentinel on every machine but one is committed to that
  machine provided the makespan reached so far plus the processing time on that machine
  is below the sentinel.
\<close>

theorem sole_available_machine_committed:
  assumes "jobs_positive jobs"
    and "decode_genes jobs genome (initial_state jobs n_machines)
           = Inr (operation_counter, machine_schedules)"
    and "resolve_operation jobs gene operation_counter = Inr operation"
    and "length operation \<le> length machine_schedules"
    and "available < length operation" and "operation ! available < INF_sentinel"
    and "\<forall>machine < length operation. machine \<noteq> available \<longrightarrow> operation ! machine = INF_sentinel"
    and "makespan machine_schedules = Inr current"
    and "current + operation ! available < INF_sentinel"
  shows "\<exists>operation_counter'.
           decode_genes jobs (genome @ [gene]) (initial_state jobs n_machines)
             = Inr (operation_counter',
                    machine_schedules[available :=
                      trial_schedule gene (finish_time_of_last_operation gene machine_schedules)
                        machine_schedules available (operation ! available)])"
proof -
  have "\<forall>sch \<in> set (snd (initial_state jobs n_machines)). valid_schedule sch"
    by (simp add: initial_state_def valid_schedule_Nil)
  with assms(1,2) have valid: "\<forall>sch \<in> set machine_schedules. valid_schedule sch"
    by (cases "initial_state jobs n_machines") (auto dest: decode_genes_valid)
  from resolve_operation_Inr [OF assms(3)] assms(1,5) have pos: "0 < operation ! available"
    unfolding jobs_positive_def by (meson nth_mem)
  from decode_gene_sole_available [OF assms(3,4) valid assms(5) pos assms(6-9)]
  obtain oc' where "decode_gene jobs gene (operation_counter, machine_schedules)
      = Inr (oc', machine_schedules[available :=
                      trial_schedule gene (finish_time_of_last_operation gene machine_schedules)
                        machine_schedules available (operation ! available)])"
    by blast
  with assms(2) show ?thesis by (simp add: decode_genes_append)
qed

text \<open>C2 (amended) on an operation with the sentinel on both machines of an empty factory.\<close>

theorem all_unavailable_operation_is_committed_witness:
  "resolve_operation [[[INF_sentinel, INF_sentinel]]] 0 [0] = Inr [INF_sentinel, INF_sentinel] \<and>
   [INF_sentinel, INF_sentinel] \<noteq> [] \<and>
   length [INF_sentinel, INF_sentinel] \<le> length [[], [] :: schedule] \<and>
   [INF_sentinel, INF_sentinel] ! 0 = INF_sentinel \<and>
   [INF_sentinel, INF_sentinel] ! 1 = INF_sentinel \<and>
   (\<exists>operation_counter' machine s.
           machine < length [INF_sentinel, INF_sentinel] \<and>
           decode_gene [[[INF_sentinel, INF_sentinel]]] 0 ([0], [[], []])
             = Inr (operation_counter',
                    [[], []][machine :=
                      trial_schedule 0 (finish_time_of_last_operation 0 [[], []])
                        [[], []] machine INF_sentinel]) \<and>
           committed ([[], []][machine :=
                      trial_schedule 0 (finish_time_of_last_operation 0 [[], []])
                        [[], []] machine INF_sentinel])
             = add_mset s (committed [[], []]) \<and>
           slot_job s = 0 \<and> slot_end s = slot_start s + INF_sentinel)"
proof -
  have op: "resolve_operation [[[INF_sentinel, INF_sentinel]]] 0 [0]
      = Inr [INF_sentinel, INF_sentinel]"
    by (simp add: resolve_operation_def py_get_def py_index_def)
  have ne: "[INF_sentinel, INF_sentinel] \<noteq> []" by simp
  have len: "length [INF_sentinel, INF_sentinel] \<le> length [[], [] :: schedule]" by simp
  have all: "\<forall>machine < length [INF_sentinel, INF_sentinel].
      [INF_sentinel, INF_sentinel] ! machine = INF_sentinel"
    by (simp add: nth_Cons' less_Suc_eq)
  from all_unavailable_operation_is_committed [OF op ne len all] op show ?thesis by simp
qed

text \<open>
  C2 as stated fails: the single operation of the job has the sentinel on both machines,
  and the single-factory decoder returns a schedule with a slot of sentinel length on
  machine 0.
\<close>

theorem all_unavailable_counterexample:
  "schedule_in_single_factory [0] [[[INF_sentinel, INF_sentinel]]] 2
   = Inr [[(0, 0, INF_sentinel)], []]"
  by code_simp

text \<open>
  C9 (amended) after job 1 has taken machine 0 up to time 7: the operation of job 0,
  available on machine 1 only, is committed to machine 1.
\<close>

theorem sole_available_machine_committed_witness:
  "jobs_positive [[[INF_sentinel, 5]], [[7, INF_sentinel]]] \<and>
   decode_genes [[[INF_sentinel, 5]], [[7, INF_sentinel]]] [1]
     (initial_state [[[INF_sentinel, 5]], [[7, INF_sentinel]]] 2) = Inr ([0, 1], [[(1, 0, 7)], []]) \<and>
   resolve_operation [[[INF_sentinel, 5]], [[7, INF_sentinel]]] 0 [0, 1] = Inr [INF_sentinel, 5] \<and>
   [INF_sentinel, 5] ! 1 < INF_sentinel \<and> [INF_sentinel, 5] ! 0 = INF_sentinel \<and>
   makespan [[(1, 0, 7)], []] = Inr 7 \<and> 7 + [INF_sentinel, 5] ! 1 < INF_sentinel \<and>
   (\<exists>operation_counter'.
      decode_genes [[[INF_sentinel, 5]], [[7, INF_sentinel]]] ([1] @ [0])
        (initial_state [[[INF_sentinel, 5]], [[7, INF_sentinel]]] 2)
      = Inr (operation_counter',
             [[(1, 0, 7)], []][1 :=
               trial_schedule 0 (finish_time_of_last_operation 0 [[(1, 0, 7)], []])
                 [[(1, 0, 7)], []] 1 ([INF_sentinel, 5] ! 1)])) \<and>
   [[(1, 0, 7)], []][1 :=
               trial_schedule 0 (finish_time_of_last_operation 0 [[(1, 0, 7)], []])
                 [[(1, 0, 7)], []] 1 ([INF_sentinel, 5] ! 1)] = [[(1, 0, 7)], [(0, 0, 5)]]"
proof -
  let ?jobs = "[[[INF_sentinel, 5]], [[7, INF_sentinel]]]"
  have pos: "jobs_positive ?jobs" by (simp add: jobs_positive_def INF_sentinel_def)
  have pre: "decode_genes ?jobs [1] (initial_state ?jobs 2) = Inr ([0, 1], [[(1, 0, 7)], []])"
    by code_simp
  have op: "resolve_operation ?jobs 0 [0, 1] = Inr [INF_sentinel, 5]"
    by (simp add: resolve_operation_def py_get_def py_index_def)
  have len: "length [INF_sentinel, 5] \<le> length [[(1, 0, 7)], [] :: schedule]" by simp
  have av: "1 < length [INF_sentinel, 5]" by simp
  have t: "[INF_sentinel, 5] ! 1 < INF_sentinel" by (simp add: INF_sentinel_def)
  have others: "\<forall>machine < length [INF_sentinel, 5].
      machine \<noteq> 1 \<longrightarrow> [INF_sentinel, 5] ! machine = INF_sentinel"
    by (simp add: nth_Cons' less_Suc_eq)
  have cur: "makespan [[(1, 0, 7)], []] = Inr 7" by code_simp
  have sum: "7 + [INF_sentinel, 5] ! 1 < INF_sentinel" by (simp add: INF_sentinel_def)
  have res: "[[(1, 0, 7)], []][1 :=
               trial_schedule 0 (finish_time_of_last_operation 0 [[(1, 0, 7)], []])
                 [[(1, 0, 7)], []] 1 ([INF_sentinel, 5] ! 1)] = [[(1, 0, 7)], [(0, 0, 5)]]"
    by code_simp
  from sole_available_machine_committed [OF pos pre op len av t others cur sum]
    pos pre op t cur sum res
  show ?thesis by simp
qed

text \<open>
  C9 as stated fails. Job 1 fills machine 1 up to time \<open>2 * INF - 2\<close> with two operations
  of length \<open>INF - 1\<close>. The operation of job 0 has the sentinel on machine 0 and takes 5 on
  machine 1: machine 1 is its only available machine, and the decoder commits it to
  machine 0, where the trial makespan is smaller.
\<close>

theorem sole_available_machine_counterexample:
  "schedule_in_single_factory [1, 1]
     [[[INF_sentinel, 5]], [[INF_sentinel, INF_sentinel - 1], [INF_sentinel, INF_sentinel - 1]]] 2
   = Inr [[], [(1, 0, INF_sentinel - 1), (1, INF_sentinel - 1, 2 * INF_sentinel - 2)]] \<and>
   schedule_in_single_factory [1, 1, 0]
     [[[INF_sentinel, 5]], [[INF_sentinel, INF_sentinel - 1], [INF_sentinel, INF_sentinel - 1]]] 2
   = Inr [[(0, 0, INF_sentinel)],
          [(1, 0, INF_sentinel - 1), (1, INF_sentinel - 1, 2 * INF_sentinel - 2)]]"
proof -
  have "schedule_in_single_factory [1, 1]
     [[[INF_sentinel, 5]], [[INF_sentinel, INF_sentinel - 1], [INF_sentinel, INF_sentinel - 1]]] 2
   = Inr [[], [(1, 0, INF_sentinel - 1), (1, INF_sentinel - 1, 2 * INF_sentinel - 2)]]"
    by code_simp
  moreover have "schedule_in_single_factory [1, 1, 0]
     [[[INF_sentinel, 5]], [[INF_sentinel, INF_sentinel - 1], [INF_sentinel, INF_sentinel - 1]]] 2
   = Inr [[(0, 0, INF_sentinel)],
          [(1, 0, INF_sentinel - 1), (1, INF_sentinel - 1, 2 * INF_sentinel - 2)]]"
    by code_simp
  ultimately show ?thesis by simp
qed

section \<open>The trial makespan\<close>




section \<open>Precedence by operation index\<close>

lemma py_index_nonneg: "0 \<le> i \<Longrightarrow> i < int n \<Longrightarrow> py_index n i = Inr (nat i)"
  by (simp add: py_index_def)

lemma py_index_nonneg_Inr: "0 \<le> i \<Longrightarrow> py_index n i = Inr k \<Longrightarrow> k = nat i \<and> i < int n"
  by (auto simp: py_index_def split: if_splits)

lemma decode_gene_slot:
  assumes "decode_gene jobs gene (oc, ms) = Inr (oc', ms')"
  shows "\<exists>operation m st.
           resolve_operation jobs gene oc = Inr operation \<and>
           increment_counter oc gene = Inr oc' \<and> m < length operation \<and>
           committed ms' = add_mset (gene, st, st + operation ! m) (committed ms) \<and>
           finish_time_of_last_operation gene ms \<le> st"
proof -
  let ?f = "finish_time_of_last_operation gene ms"
  from decode_gene_Inr [OF assms] obtain operation m where
    op: "resolve_operation jobs gene oc = Inr operation"
    and inc: "increment_counter oc gene = Inr oc'"
    and len: "length operation \<le> length ms" "m < length operation"
    and ms': "ms' = ms[m := trial_schedule gene ?f ms m (operation ! m)]"
    by blast
  from len have m: "m < length ms" by simp
  from mset_insert_operation [of ?f "operation ! m" gene "ms ! m"] obtain st where
    st: "?f \<le> st" "mset (trial_schedule gene ?f ms m (operation ! m))
           = add_mset (gene, st, st + operation ! m) (mset (ms ! m))"
    unfolding trial_schedule_def by blast
  from committed_update [OF m st(2)] ms'
  have "committed ms' = add_mset (gene, st, st + operation ! m) (committed ms)" by simp
  with op inc len(2) st(1) show ?thesis by blast
qed

lemma resolve_operation_in_range:
  assumes "resolve_operation jobs gene oc = Inr operation"
    and "length oc = length jobs" "0 \<le> gene" "gene < int (length jobs)"
    and "oc ! nat gene = int k"
  shows "k < length (jobs ! nat gene) \<and> operation = jobs ! nat gene ! k"
proof -
  from assms(2-4) have j: "py_get jobs gene = Inr (jobs ! nat gene)"
    and c: "py_get oc gene = Inr (oc ! nat gene)"
    by (simp_all add: py_get_def py_index_nonneg)
  with assms(1,5) have g: "py_get (jobs ! nat gene) (int k) = Inr operation"
    by (simp add: resolve_operation_def)
  then obtain i where i: "py_index (length (jobs ! nat gene)) (int k) = Inr i"
    "operation = jobs ! nat gene ! i"
    by (auto simp: py_get_def split: sum.splits)
  from py_index_nonneg_Inr [OF _ i(1)] have "i = k" "int k < int (length (jobs ! nat gene))"
    by simp_all
  with i(2) show ?thesis by simp
qed

lemma job_slots_add:
  "committed ms' = add_mset s (committed ms) \<Longrightarrow>
   job_slots job ms' = (if slot_job s = job then add_mset s (job_slots job ms) else job_slots job ms)"
  by (simp add: job_slots_def)

lemma counters_match_step:
  assumes inv: "counters_match jobs (oc, ms)"
    and gene: "0 \<le> gene" "gene < int (length jobs)"
    and run: "decode_gene jobs gene (oc, ms) = Inr (oc', ms')"
  shows "counters_match jobs (oc', ms')"
proof -
  from inv have len: "length oc = length jobs"
    and cnt: "\<And>j. j < length jobs \<Longrightarrow> oc ! j = int (size (job_slots (int j) ms))"
    by (simp_all add: counters_match_def)
  from decode_gene_slot [OF run] obtain operation m st where
    inc: "increment_counter oc gene = Inr oc'"
    and add: "committed ms' = add_mset (gene, st, st + operation ! m) (committed ms)"
    by blast
  from gene len have "py_index (length oc) gene = Inr (nat gene)"
    by (simp add: py_index_nonneg)
  with inc have oc': "oc' = oc[nat gene := oc ! nat gene + 1]"
    by (simp add: increment_counter_def)
  have tag: "slot_job (gene, st, st + operation ! m) = gene" by (simp add: slot_job_def)
  have "oc' ! j = int (size (job_slots (int j) ms'))" if j: "j < length jobs" for j
  proof (cases "j = nat gene")
    case True
    with gene have "int j = gene" by simp
    with job_slots_add [OF add, of "int j"] tag
    have "size (job_slots (int j) ms') = Suc (size (job_slots (int j) ms))" by simp
    with True j len cnt [OF j] show ?thesis by (simp add: oc')
  next
    case False
    with gene have "int j \<noteq> gene" by auto
    with job_slots_add [OF add, of "int j"] tag
    have "job_slots (int j) ms' = job_slots (int j) ms" by simp
    with False cnt [OF j] show ?thesis by (simp add: oc')
  qed
  with len oc' show ?thesis by (simp add: counters_match_def)
qed

lemma counters_match_decode_genes:
  "decode_genes jobs genome (oc, ms) = Inr (oc', ms') \<Longrightarrow> counters_match jobs (oc, ms) \<Longrightarrow>
   \<forall>g \<in> set genome. 0 \<le> g \<and> g < int (length jobs) \<Longrightarrow> counters_match jobs (oc', ms')"
proof (induction genome arbitrary: oc ms)
  case Nil
  then show ?case by simp
next
  case (Cons gene genome)
  from Cons.prems(1) obtain oc1 ms1 where
    step: "decode_gene jobs gene (oc, ms) = Inr (oc1, ms1)"
    and rest: "decode_genes jobs genome (oc1, ms1) = Inr (oc', ms')"
    by (auto split: sum.splits)
  from Cons.prems(3) have g: "0 \<le> gene" "gene < int (length jobs)"
    and gs: "\<forall>g \<in> set genome. 0 \<le> g \<and> g < int (length jobs)" by simp_all
  from counters_match_step [OF Cons.prems(2) g step]
  have "counters_match jobs (oc1, ms1)" .
  from Cons.IH [OF rest this gs] show ?case .
qed

lemma job_slots_replicate_Nil: "job_slots job (replicate n []) = {#}"
  by (simp add: job_slots_def committed_replicate_Nil)

lemma counters_match_initial: "counters_match jobs (initial_state jobs n_machines)"
  by (simp add: counters_match_def initial_state_def job_slots_replicate_Nil)

lemma schedule_in_single_factory_snoc_operation:
  assumes "schedule_in_single_factory (pre @ [gene]) jobs nm = Inr ms'"
    and "\<forall>g \<in> set (pre @ [gene]). 0 \<le> g \<and> g < int (length jobs)"
  shows "\<exists>ms s machine.
           schedule_in_single_factory pre jobs nm = Inr ms \<and> length ms = length ms' \<and>
           committed ms' = add_mset s (committed ms) \<and> slot_job s = gene \<and>
           size (job_slots gene ms) < length (jobs ! nat gene) \<and>
           machine < length (jobs ! nat gene ! size (job_slots gene ms)) \<and>
           slot_end s = slot_start s + jobs ! nat gene ! size (job_slots gene ms) ! machine \<and>
           (\<forall>s' \<in># job_slots gene ms. slot_end s' \<le> slot_start s)"
proof -
  from assms(2) have g: "0 \<le> gene" "gene < int (length jobs)"
    and gs: "\<forall>g \<in> set pre. 0 \<le> g \<and> g < int (length jobs)" by simp_all
  from assms(1) obtain oc' where
    "decode_genes jobs (pre @ [gene]) (initial_state jobs nm) = Inr (oc', ms')"
    by (auto simp: schedule_in_single_factory_def split: sum.splits)
  then obtain oc ms where pre: "decode_genes jobs pre (initial_state jobs nm) = Inr (oc, ms)"
    and step: "decode_gene jobs gene (oc, ms) = Inr (oc', ms')"
    by (auto simp: decode_genes_append split: sum.splits)
  from pre have single: "schedule_in_single_factory pre jobs nm = Inr ms"
    by (simp add: schedule_in_single_factory_def)
  have "counters_match jobs (oc, ms)"
  proof (cases "initial_state jobs nm")
    case (Pair oc0 ms0)
    with pre counters_match_initial [of jobs nm] gs show ?thesis
      by (auto intro: counters_match_decode_genes)
  qed
  with g have len: "length oc = length jobs"
    and cnt: "oc ! nat gene = int (size (job_slots gene ms))"
    by (simp_all add: counters_match_def)
  from decode_gene_slot [OF step] obtain operation m st where
    op: "resolve_operation jobs gene oc = Inr operation"
    and m: "m < length operation"
    and add: "committed ms' = add_mset (gene, st, st + operation ! m) (committed ms)"
    and st: "finish_time_of_last_operation gene ms \<le> st"
    by blast
  from resolve_operation_in_range [OF op len g cnt]
  have k: "size (job_slots gene ms) < length (jobs ! nat gene)"
    and operation: "operation = jobs ! nat gene ! size (job_slots gene ms)" by simp_all
  from decode_gene_committed [OF step] have lms: "length ms = length ms'" by simp
  let ?s = "(gene, st, st + operation ! m)"
  have bound: "slot_end s' \<le> slot_start ?s" if "s' \<in># job_slots gene ms" for s'
  proof -
    from that have "s' \<in> set (concat ms)" "slot_job s' = gene"
      by (simp_all add: job_slots_def committed_def)
    from finish_time_of_last_operation_bound [OF this] st show ?thesis
      by (simp add: slot_start_def)
  qed
  have "slot_job ?s = gene" "slot_end ?s = slot_start ?s + operation ! m"
    by (simp_all add: slot_job_def slot_start_def slot_end_def)
  with single lms add k m bound show ?thesis
    by (intro exI [of _ ms] exI [of _ ?s] exI [of _ m]) (simp add: operation [symmetric])
qed

lemma split_genome_genes:
  "split_genome ps subs0 = Inr subs \<Longrightarrow> i < length subs \<Longrightarrow>
   set (subs ! i) \<subseteq> set (subs0 ! i) \<union> fst ` set ps"
proof (induction ps arbitrary: subs0)
  case Nil
  then show ?case by simp
next
  case (Cons p ps)
  from Cons.prems(1) obtain k where
    rest: "split_genome ps (subs0[k := subs0 ! k @ [fst p]]) = Inr subs"
    by (auto simp: split_genome_Cons simp del: split_genome.simps split: sum.splits)
  from split_genome_length [OF rest] Cons.prems(2) have i: "i < length subs0" by simp
  from Cons.IH [OF rest Cons.prems(2)]
  have "set (subs ! i) \<subseteq> set (subs0[k := subs0 ! k @ [fst p]] ! i) \<union> fst ` set ps" .
  moreover from i have "set (subs0[k := subs0 ! k @ [fst p]] ! i) \<subseteq> set (subs0 ! i) \<union> {fst p}"
    by (cases "i = k") auto
  ultimately show ?case by auto
qed

text \<open>
  C1 (amended). Let every gene be an index in \<open>[0, len(jobs))\<close>, so that the tag of a
  slot names its job. Decoding one more gene \<open>gene\<close>, assigned to factory \<open>fac\<close>,
  changes only the schedule of that factory and adds exactly one slot \<open>s\<close> there, tagged
  with \<open>gene\<close>. With \<open>k\<close> the number of slots of \<open>gene\<close> that the factory held before,
  \<open>s\<close> is the slot of operation \<open>k\<close> of the job (the operation counter is kept per
  factory): its length is the processing time of \<open>jobs[gene][k]\<close> on one of the machines.
  And \<open>s\<close> starts no earlier than every slot of \<open>gene\<close> already committed in that factory
  ends. So the slots of a job within one factory, ordered by the operation index that
  the factory counts, satisfy \<open>start[k+1] \<ge> end[k]\<close>, whichever machines they are on. The
  slots of the job in other factories are not looked at.
\<close>

theorem precedence_within_factory:
  assumes "length operation_genome = length factory_genome"
    and "\<forall>g \<in> set (operation_genome @ [gene]). 0 \<le> g \<and> g < int (length jobs)"
    and "schedule_in_multiple_factory (operation_genome @ [gene]) (factory_genome @ [fac])
           jobs n_machines n_factories = Inr (m', schedules')"
  shows "\<exists>m schedules i s machine.
           schedule_in_multiple_factory operation_genome factory_genome jobs n_machines n_factories
             = Inr (m, schedules) \<and>
           py_index (length schedules) fac = Inr i \<and>
           schedules' = schedules[i := schedules' ! i] \<and>
           committed (schedules' ! i) = add_mset s (committed (schedules ! i)) \<and>
           slot_job s = gene \<and>
           size (job_slots gene (schedules ! i)) < length (jobs ! nat gene) \<and>
           machine < length (jobs ! nat gene ! size (job_slots gene (schedules ! i))) \<and>
           slot_end s = slot_start s
             + jobs ! nat gene ! size (job_slots gene (schedules ! i)) ! machine \<and>
           (\<forall>s' \<in># job_slots gene (schedules ! i). slot_end s' \<le> slot_start s)"
proof -
  let ?R = "\<lambda>sub sched. schedule_in_single_factory sub jobs n_machines = Inr sched"
  let ?init = "replicate (nat n_factories) ([]::int list)"
  from schedule_in_multiple_factory_Inr [OF assms(3)] obtain subs' where
    sp': "split_genome (zip (operation_genome @ [gene]) (factory_genome @ [fac])) ?init = Inr subs'"
    and all': "list_all2 ?R subs' schedules'"
    and mk': "makespan (concat schedules') = Inr m'"
    by blast
  from assms(1) have "zip (operation_genome @ [gene]) (factory_genome @ [fac])
      = zip operation_genome factory_genome @ [(gene, fac)]" by simp
  with sp' have "split_genome (zip operation_genome factory_genome @ [(gene, fac)]) ?init = Inr subs'"
    by simp
  from split_genome_snoc [OF this] obtain subs i where
    sp: "split_genome (zip operation_genome factory_genome) ?init = Inr subs"
    and idx: "py_index (length subs) fac = Inr i"
    and subs': "subs' = subs[i := subs ! i @ [gene]]"
    by blast
  from py_index_Inr [OF idx] have i: "i < length subs" .
  from split_genome_length [OF sp] i have "?init ! i = []" by simp
  with split_genome_genes [OF sp i]
  have "set (subs ! i) \<subseteq> fst ` set (zip operation_genome factory_genome)" by simp
  also have "\<dots> \<subseteq> set operation_genome" by (auto dest: set_zip_leftD)
  finally have "\<forall>g \<in> set (subs ! i @ [gene]). 0 \<le> g \<and> g < int (length jobs)"
    using assms(2) by auto
  note range = this
  from all' have len': "length schedules' = length subs'" by (simp add: list_all2_lengthD)
  with subs' have len: "length schedules' = length subs" by simp
  from list_all2_nthD [OF all', of i] i subs' have "?R (subs' ! i) (schedules' ! i)"
    by simp
  with i subs' have "schedule_in_single_factory (subs ! i @ [gene]) jobs n_machines
      = Inr (schedules' ! i)" by simp
  from schedule_in_single_factory_snoc_operation [OF this range] obtain ms s machine where
    ms: "schedule_in_single_factory (subs ! i) jobs n_machines = Inr ms"
    and lms: "length ms = length (schedules' ! i)"
    and add: "committed (schedules' ! i) = add_mset s (committed ms)"
    and job: "slot_job s = gene"
    and k: "size (job_slots gene ms) < length (jobs ! nat gene)"
    and mach: "machine < length (jobs ! nat gene ! size (job_slots gene ms))"
    and dur: "slot_end s = slot_start s + jobs ! nat gene ! size (job_slots gene ms) ! machine"
    and prec: "\<forall>s' \<in># job_slots gene ms. slot_end s' \<le> slot_start s"
    by blast
  define schedules where "schedules = schedules'[i := ms]"
  have lenS: "length schedules = length subs" by (simp add: schedules_def len)
  have nthS: "schedules ! i = ms" using i len by (simp add: schedules_def)
  have "list_all2 ?R subs schedules"
  proof (rule list_all2_all_nthI)
    show "length subs = length schedules" by (simp add: lenS)
  next
    fix n assume n: "n < length subs"
    show "?R (subs ! n) (schedules ! n)"
    proof (cases "n = i")
      case True
      with ms nthS show ?thesis by simp
    next
      case False
      from list_all2_nthD [OF all', of n] n subs' have "?R (subs' ! n) (schedules' ! n)"
        by simp
      with False subs' show ?thesis by (simp add: schedules_def)
    qed
  qed
  then have dec: "decode_factories subs jobs n_machines = Inr schedules"
    by (simp add: decode_factories_iff)
  from mk' have "concat schedules' \<noteq> []"
    using makespan_Inr_iff [of "concat schedules'"] by blast
  with i len lms have "concat schedules \<noteq> []"
    unfolding schedules_def by (intro concat_update_nonempty) simp_all
  then obtain m where m: "makespan (concat schedules) = Inr m"
    using makespan_Inr_iff [of "concat schedules"] by blast
  from sp dec m have run: "schedule_in_multiple_factory operation_genome factory_genome jobs
      n_machines n_factories = Inr (m, schedules)"
    by (simp add: schedule_in_multiple_factory_def)
  have same: "schedules' = schedules[i := schedules' ! i]"
    by (simp add: schedules_def)
  from idx lenS have idx': "py_index (length schedules) fac = Inr i" by simp
  show ?thesis
    using run idx' same add job k mach dur prec unfolding nthS [symmetric]
    by (intro exI [of _ m] exI [of _ schedules] exI [of _ i] exI [of _ s] exI [of _ machine]) simp
qed

text \<open>
  C1 (amended) on two machines. Job 0 has the operations \<open>[5, 9]\<close> and \<open>[9, 3]\<close>, job 1
  the operation \<open>[4, 4]\<close>; the genes 0, 1, 0 all go to factory 0. The first operation of
  job 0 takes machine 0 up to time 5 and job 1 takes machine 1 up to time 4. The second
  operation of job 0 is committed to machine 1, which is free from time 4, and starts
  at 5, where the first operation of the job ends.
\<close>

theorem precedence_within_factory_witness:
  "length [0, 1 :: int] = length [0, 0 :: int] \<and>
   schedule_in_multiple_factory [0, 1] [0, 0] [[[5, 9], [9, 3]], [[4, 4]]] 2 2
     = Inr (5, [[[(0, 0, 5)], [(1, 0, 4)]], [[], []]]) \<and>
   schedule_in_multiple_factory ([0, 1] @ [0]) ([0, 0] @ [0]) [[[5, 9], [9, 3]], [[4, 4]]] 2 2
     = Inr (8, [[[(0, 0, 5)], [(1, 0, 4), (0, 5, 8)]], [[], []]]) \<and>
   (\<exists>m schedules i s machine.
      schedule_in_multiple_factory [0, 1] [0, 0] [[[5, 9], [9, 3]], [[4, 4]]] 2 2
        = Inr (m, schedules) \<and>
      py_index (length schedules) 0 = Inr i \<and>
      [[[(0, 0, 5)], [(1, 0, 4), (0, 5, 8)]], [[], []]]
        = schedules[i := [[[(0, 0, 5)], [(1, 0, 4), (0, 5, 8)]], [[], []]] ! i] \<and>
      committed ([[[(0, 0, 5)], [(1, 0, 4), (0, 5, 8)]], [[], []]] ! i)
        = add_mset s (committed (schedules ! i)) \<and>
      slot_job s = 0 \<and>
      size (job_slots 0 (schedules ! i)) < length ([[[5, 9], [9, 3]], [[4, 4 :: int]]] ! nat 0) \<and>
      machine < length ([[[5, 9], [9, 3]], [[4, 4 :: int]]] ! nat 0 ! size (job_slots 0 (schedules ! i))) \<and>
      slot_end s = slot_start s
        + [[[5, 9], [9, 3]], [[4, 4 :: int]]] ! nat 0 ! size (job_slots 0 (schedules ! i)) ! machine \<and>
      (\<forall>s' \<in># job_slots 0 (schedules ! i). slot_end s' \<le> slot_start s))"
proof -
  let ?jobs = "[[[5, 9], [9, 3]], [[4, 4 :: int]]]"
  have len: "length [0, 1 :: int] = length [0, 0 :: int]" by simp
  have range: "\<forall>g \<in> set ([0, 1] @ [0]). 0 \<le> g \<and> g < int (length ?jobs)" by simp
  have pre: "schedule_in_multiple_factory [0, 1] [0, 0] ?jobs 2 2
     = Inr (5, [[[(0, 0, 5)], [(1, 0, 4)]], [[], []]])"
    by code_simp
  have run: "schedule_in_multiple_factory ([0, 1] @ [0]) ([0, 0] @ [0]) ?jobs 2 2
     = Inr (8, [[[(0, 0, 5)], [(1, 0, 4), (0, 5, 8)]], [[], []]])"
    by code_simp
  note E = precedence_within_factory [OF len range run]
  show ?thesis
    by (rule conjI [OF len conjI [OF pre conjI [OF run E]]])
qed

end
